theory Spec2Isabelle
  imports Complex_Main "HOL-Library.Word"
begin

section \<open>The RAG pipeline of rag.js: text normalisation and chunking\<close>

text \<open>
  A JavaScript string is a sequence of 16-bit code units; \<open>length\<close> counts code units,
  as \<^verbatim>\<open>String.prototype.length\<close> does. The regular expressions of the source carry no
  \<^verbatim>\<open>u\<close> or \<^verbatim>\<open>i\<close> flag, so they classify single code units.
\<close>

type_synonym code_unit = "16 word"
type_synonym jsstring = "code_unit list"

text \<open>String literals of the source, written as Isabelle strings (ASCII only).\<close>

definition js :: "string \<Rightarrow> jsstring" where
  "js s = map of_char s"

text \<open>
  \<^verbatim>\<open>\s\<close> of a JavaScript regular expression, which is also the set that
  \<^verbatim>\<open>String.prototype.trim\<close> strips: TAB, LF, VT, FF, CR, SPACE, NBSP, U+1680,
  U+2000..U+200A, LS, PS, U+202F, U+205F, U+3000 and U+FEFF.
\<close>

definition is_space :: "code_unit \<Rightarrow> bool" where
  "is_space c \<longleftrightarrow>
     (0x09 \<le> c \<and> c \<le> 0x0D) \<or> c = 0x20 \<or> c = 0xA0 \<or> c = 0x1680 \<or>
     (0x2000 \<le> c \<and> c \<le> 0x200A) \<or> c = 0x2028 \<or> c = 0x2029 \<or> c = 0x202F \<or>
     c = 0x205F \<or> c = 0x3000 \<or> c = 0xFEFF"

text \<open>The classes \<^verbatim>\<open>[a-z]\<close>, \<^verbatim>\<open>[A-Z]\<close>, \<^verbatim>\<open>[.,!?]\<close> and \<^verbatim>\<open>[.!?]\<close>.\<close>

definition is_lower :: "code_unit \<Rightarrow> bool" where
  "is_lower c \<longleftrightarrow> 0x61 \<le> c \<and> c \<le> 0x7A"

definition is_upper :: "code_unit \<Rightarrow> bool" where
  "is_upper c \<longleftrightarrow> 0x41 \<le> c \<and> c \<le> 0x5A"

definition is_punct :: "code_unit \<Rightarrow> bool" where
  "is_punct c \<longleftrightarrow> c = 0x2E \<or> c = 0x2C \<or> c = 0x21 \<or> c = 0x3F"

definition is_delim :: "code_unit \<Rightarrow> bool" where
  "is_delim c \<longleftrightarrow> c = 0x2E \<or> c = 0x21 \<or> c = 0x3F"

subsection \<open>preprocessText\<close>

text \<open>
  Each \<^verbatim>\<open>replace(/.../g, ...)\<close> scans left to right and resumes after the end of a match,
  so matches never overlap.

  \<^verbatim>\<open>.replace(/([a-z])([A-Z])/g, '$1 $2')\<close>
\<close>

fun split_camel :: "jsstring \<Rightarrow> jsstring" where
  "split_camel (a # b # r) =
     (if is_lower a \<and> is_upper b then a # 0x20 # b # split_camel r
      else a # split_camel (b # r))"
| "split_camel r = r"

text \<open>\<^verbatim>\<open>.replace(/\s+/g, ' ')\<close>: \<^verbatim>\<open>\s+\<close> is greedy and takes the whole run.\<close>

function collapse_spaces :: "jsstring \<Rightarrow> jsstring" where
  "collapse_spaces [] = []"
| "collapse_spaces (c # r) =
     (if is_space c then 0x20 # collapse_spaces (dropWhile is_space r)
      else c # collapse_spaces r)"
  by pat_completeness auto
termination
  by (relation "measure length") (auto simp: length_dropWhile_le le_imp_less_Suc)

text \<open>
  \<^verbatim>\<open>.replace(/\s+([.,!?])/g, '$1')\<close>: at a white-space unit the greedy run must be followed
  by a punctuation mark; backtracking to a shorter run cannot help, since the unit after a
  shorter run is white space. Where the match fails the unit is copied and the scan moves on
  by one.
\<close>

function strip_before_punct :: "jsstring \<Rightarrow> jsstring" where
  "strip_before_punct [] = []"
| "strip_before_punct (c # r) =
     (if is_space c then
        (case dropWhile is_space r of
           [] \<Rightarrow> c # strip_before_punct r
         | p # r' \<Rightarrow> if is_punct p then p # strip_before_punct r'
                    else c # strip_before_punct r)
      else c # strip_before_punct r)"
  by pat_completeness auto
termination
proof (relation "measure length", goal_cases)
  case (3 c r p r')
  have "length (dropWhile is_space r) \<le> length r"
    by (rule length_dropWhile_le)
  with 3 show ?case by simp
qed auto

text \<open>\<^verbatim>\<open>.replace(/([.,!?])([^\s])/g, '$1 $2')\<close>\<close>

fun space_after_punct :: "jsstring \<Rightarrow> jsstring" where
  "space_after_punct (p # c # r) =
     (if is_punct p \<and> \<not> is_space c then p # 0x20 # c # space_after_punct r
      else p # space_after_punct (c # r))"
| "space_after_punct r = r"

text \<open>\<^verbatim>\<open>.trim()\<close>\<close>

definition trim :: "jsstring \<Rightarrow> jsstring" where
  "trim s = rev (dropWhile is_space (rev (dropWhile is_space s)))"

definition preprocessText :: "jsstring \<Rightarrow> jsstring" where
  "preprocessText text =
     trim (space_after_punct (strip_before_punct (collapse_spaces (split_camel text))))"

subsection \<open>splitIntoChunks\<close>

text \<open>
  \<^verbatim>\<open>cleanText.split(/[.!?]+/)\<close>: the pieces between maximal runs of delimiters, the empty
  pieces at either end included; the empty string splits into one empty piece.
\<close>

function split_delims :: "jsstring \<Rightarrow> jsstring list" where
  "split_delims s =
     (let seg = takeWhile (\<lambda>c. \<not> is_delim c) s;
          rest = dropWhile (\<lambda>c. \<not> is_delim c) s
      in if rest = [] then [seg] else seg # split_delims (dropWhile is_delim rest))"
  by pat_completeness auto
termination
proof (relation "measure length", goal_cases)
  case (2 s seg rest)
  from \<open>rest \<noteq> []\<close> obtain d r where dr: "rest = d # r"
    by (auto simp: neq_Nil_conv)
  have "is_delim (hd rest)"
    using 2 hd_dropWhile[of "\<lambda>c. \<not> is_delim c" s] by blast
  with dr have "is_delim d" by simp
  then have "length (dropWhile is_delim rest) \<le> length r"
    using dr by (simp add: length_dropWhile_le)
  moreover have "length rest \<le> length s"
    using 2 by (simp add: length_dropWhile_le)
  ultimately show ?case using dr by simp
qed auto

declare split_delims.simps [simp del]

text \<open>
  The \<^verbatim>\<open>for (const sentence of sentences)\<close> loop, on the pair of the two variables it
  updates: \<^verbatim>\<open>chunks\<close> and \<^verbatim>\<open>currentChunk\<close>. The empty string is the falsy one.
\<close>

fun chunk_loop ::
  "nat \<Rightarrow> jsstring list \<Rightarrow> jsstring list \<times> jsstring \<Rightarrow> jsstring list \<times> jsstring" where
  "chunk_loop chunkSize [] (chunks, currentChunk) = (chunks, currentChunk)"
| "chunk_loop chunkSize (sentence # rest) (chunks, currentChunk) =
     (let trimmedSentence = trim sentence in
      if trimmedSentence = [] then chunk_loop chunkSize rest (chunks, currentChunk)
      else if length currentChunk + length trimmedSentence + 1 \<le> chunkSize then
        chunk_loop chunkSize rest
          (chunks,
           currentChunk @ (if currentChunk \<noteq> [] then js ''. '' else []) @ trimmedSentence)
      else
        chunk_loop chunkSize rest
          (if currentChunk \<noteq> [] then chunks @ [currentChunk @ js ''.''] else chunks,
           trimmedSentence))"

definition splitIntoChunks :: "jsstring \<Rightarrow> nat \<Rightarrow> jsstring list" where
  "splitIntoChunks text chunkSize =
     (let cleanText = preprocessText text;
          sentences = split_delims cleanText;
          (chunks, currentChunk) = chunk_loop chunkSize sentences ([], [])
      in if currentChunk \<noteq> [] then chunks @ [currentChunk @ js ''.''] else chunks)"

text \<open>The sentences of a text: the non-empty trimmed pieces between delimiters.\<close>

definition sentences_of :: "jsstring \<Rightarrow> jsstring list" where
  "sentences_of s = filter (\<lambda>t. t \<noteq> []) (map trim (split_delims s))"

subsection \<open>Auxiliary notions for the chunker's invariants\<close>

text \<open>
  A sentence as the loop sees it after \<^verbatim>\<open>trim\<close>: not empty, free of delimiters, with no
  white space at either end.
\<close>

definition good_sentence :: "jsstring \<Rightarrow> bool" where
  "good_sentence t \<longleftrightarrow>
     t \<noteq> [] \<and> list_all (\<lambda>c. \<not> is_delim c) t \<and> \<not> is_space (hd t) \<and> \<not> is_space (last t)"

text \<open>\<open>currentChunk\<close> is always some sentences joined by \<^verbatim>\<open>'. '\<close>; a flushed chunk adds the full stop.\<close>

fun join_sentences :: "jsstring list \<Rightarrow> jsstring" where
  "join_sentences [] = []"
| "join_sentences [t] = t"
| "join_sentences (t # ts) = t @ js ''. '' @ join_sentences ts"

text \<open>What every emitted chunk looks like.\<close>

definition well_formed_chunk :: "jsstring \<Rightarrow> bool" where
  "well_formed_chunk c \<longleftrightarrow>
     c \<noteq> [] \<and> last c = 0x2E \<and> \<not> is_space (hd c) \<and> \<not> is_space (last c) \<and> trim c = c"

definition render :: "jsstring list \<Rightarrow> jsstring" where
  "render g = join_sentences g @ js ''.''"

subsection \<open>Auxiliary notions for the normaliser's invariants\<close>

text \<open>
  What the passes of \<open>preprocessText\<close> establish, each as a property of neighbouring units:
  no lower-case letter directly before an upper-case one; no two white-space units in a
  row; white space is the plain space only; no white space directly before a punctuation
  mark. \<open>rstrip\<close> is the right half of \<open>trim\<close>.
\<close>

definition no_camel :: "jsstring \<Rightarrow> bool" where
  "no_camel s = successively (\<lambda>a b. \<not> (is_lower a \<and> is_upper b)) s"

definition spaced_once :: "jsstring \<Rightarrow> bool" where
  "spaced_once s = successively (\<lambda>a b. \<not> (is_space a \<and> is_space b)) s"

definition plain_spaces :: "jsstring \<Rightarrow> bool" where
  "plain_spaces s = list_all (\<lambda>c. is_space c \<longrightarrow> c = 0x20) s"

definition no_space_before_punct :: "jsstring \<Rightarrow> bool" where
  "no_space_before_punct s = successively (\<lambda>a b. \<not> (is_space a \<and> is_punct b)) s"

definition rstrip :: "jsstring \<Rightarrow> jsstring" where
  "rstrip s = rev (dropWhile is_space (rev s))"

section \<open>The pipeline over its external services\<close>

subsection \<open>Values, errors and the outside world\<close>

text \<open>
  JavaScript values as far as the pipeline looks at them: what \<^verbatim>\<open>response.json()\<close> yields,
  the caller's metadata, the embedding. An object is its property list. A number is kept as
  a real: the pipeline hands numbers on and tests them for zero at most, it never computes
  with them.
\<close>

datatype jsvalue =
    Undefined
  | Null
  | Boolean bool
  | Number real
  | String jsstring
  | Array "jsvalue list"
  | Object "(jsstring \<times> jsvalue) list"

text \<open>
  What can be thrown: \<^verbatim>\<open>new Error(message)\<close> of the source, the engine's \<^verbatim>\<open>TypeError\<close> on
  reading a property of \<^verbatim>\<open>null\<close> or \<^verbatim>\<open>undefined\<close>, and whatever a library throws (a
  connection failure of \<^verbatim>\<open>fetch\<close>, a body that is not JSON, an error of the Pinecone client).
\<close>

datatype error = Error jsstring | TypeError | Thrown jsstring

text \<open>\<^verbatim>\<open>fetch\<close> rejects, or resolves to a response: its status and what \<^verbatim>\<open>json()\<close> gives.\<close>

datatype fetch_result = Rejected error | Response nat "error + jsvalue"

text \<open>\<^verbatim>\<open>response.ok\<close> of node-fetch: the status is in the range 200-299.\<close>

definition ok :: "nat \<Rightarrow> bool" where
  "ok statusCode \<longleftrightarrow> 200 \<le> statusCode \<and> statusCode < 300"

text \<open>The description \<^verbatim>\<open>describeIndex\<close> returns, as far as \<^verbatim>\<open>description.status?.ready\<close> reads it.\<close>

datatype index_status = IndexStatus (ready: bool)

datatype description = Description (status: "index_status option")

definition status_ready :: "description \<Rightarrow> bool" where
  "status_ready d = (case status d of None \<Rightarrow> False | Some s \<Rightarrow> ready s)"

text \<open>A call of the Pinecone client throws or returns (a description, for \<^verbatim>\<open>describeIndex\<close>).\<close>

datatype reply = Fails error | Succeeds description

record index_options =
  name :: jsstring
  dimension :: nat
  metric :: jsstring
  cloud :: jsstring
  region :: jsstring

text \<open>A stored record: \<^verbatim>\<open>{ id, values, metadata }\<close>.\<close>

record vrecord =
  id' :: jsstring
  values' :: jsvalue
  metadata :: "(jsstring \<times> jsvalue) list"

text \<open>What the program does to the outside, in order.\<close>

datatype event =
    Fetch jsstring jsvalue
  | DescribeIndex jsstring
  | CreateIndex index_options
  | Upsert jsstring vrecord
  | DeleteAll jsstring
  | Sleep nat

text \<open>
  The outside world. The services answer as they please: the \<open>k\<close>-th \<^verbatim>\<open>fetch\<close> gets
  \<open>fetch_reply k\<close>, the \<open>k\<close>-th call of the Pinecone client gets \<open>pinecone_reply k\<close>, the
  \<open>k\<close>-th reading of the clock gives \<open>clock k\<close> (milliseconds). \<open>namespaces\<close> is the content
  of the one shared index, by namespace and record id; a call that throws changes none of it.
  \<open>toISOString\<close> is the runtime's rendering of an instant.
  Console output is not modelled.
\<close>

record world =
  clock :: "nat \<Rightarrow> nat"
  clock_reads :: nat
  fetch_reply :: "nat \<Rightarrow> fetch_result"
  fetches :: nat
  pinecone_reply :: "nat \<Rightarrow> reply"
  pinecone_calls :: nat
  namespaces :: "jsstring \<Rightarrow> jsstring \<rightharpoonup> vrecord"
  events :: "event list"
  toISOString :: "nat \<Rightarrow> jsstring"

definition date_now :: "world \<Rightarrow> nat \<times> world" where
  "date_now w = (clock w (clock_reads w), w\<lparr>clock_reads := clock_reads w + 1\<rparr>)"

definition fetch :: "jsstring \<Rightarrow> jsvalue \<Rightarrow> world \<Rightarrow> fetch_result \<times> world" where
  "fetch url body w =
     (fetch_reply w (fetches w),
      w\<lparr>fetches := fetches w + 1, events := events w @ [Fetch url body]\<rparr>)"

definition pinecone_call :: "event \<Rightarrow> world \<Rightarrow> reply \<times> world" where
  "pinecone_call ev w =
     (pinecone_reply w (pinecone_calls w),
      w\<lparr>pinecone_calls := pinecone_calls w + 1, events := events w @ [ev]\<rparr>)"

definition describeIndex :: "jsstring \<Rightarrow> world \<Rightarrow> (error + description) \<times> world" where
  "describeIndex indexName w =
     (case pinecone_call (DescribeIndex indexName) w of
        (Fails e, w') \<Rightarrow> (Inl e, w')
      | (Succeeds d, w') \<Rightarrow> (Inr d, w'))"

definition createIndex :: "index_options \<Rightarrow> world \<Rightarrow> (error + unit) \<times> world" where
  "createIndex options w =
     (case pinecone_call (CreateIndex options) w of
        (Fails e, w') \<Rightarrow> (Inl e, w')
      | (Succeeds d, w') \<Rightarrow> (Inr (), w'))"

definition upsert :: "jsstring \<Rightarrow> vrecord \<Rightarrow> world \<Rightarrow> (error + unit) \<times> world" where
  "upsert ns r w =
     (case pinecone_call (Upsert ns r) w of
        (Fails e, w') \<Rightarrow> (Inl e, w')
      | (Succeeds d, w') \<Rightarrow>
          (Inr (), w'\<lparr>namespaces := (namespaces w')(ns := (namespaces w' ns)(id' r \<mapsto> r))\<rparr>))"

definition deleteAll :: "jsstring \<Rightarrow> world \<Rightarrow> (error + unit) \<times> world" where
  "deleteAll ns w =
     (case pinecone_call (DeleteAll ns) w of
        (Fails e, w') \<Rightarrow> (Inl e, w')
      | (Succeeds d, w') \<Rightarrow> (Inr (), w'\<lparr>namespaces := (namespaces w')(ns := Map.empty)\<rparr>))"

text \<open>\<^verbatim>\<open>await new Promise(resolve => setTimeout(resolve, ms))\<close>\<close>

definition sleep :: "nat \<Rightarrow> world \<Rightarrow> world" where
  "sleep ms w = w\<lparr>events := events w @ [Sleep ms]\<rparr>"

subsection \<open>Constants and small helpers\<close>

definition OLLAMA_API :: jsstring where
  "OLLAMA_API = js ''http://localhost:11434''"

definition MODEL_EMBEDDING :: jsstring where
  "MODEL_EMBEDDING = js ''llama3.2''"

definition CHUNK_SIZE :: nat where
  "CHUNK_SIZE = 1000"

definition INDEX_NAME :: jsstring where
  "INDEX_NAME = js ''rag-docs-llama''"

text \<open>A non-negative integer in a template literal: its decimal digits.\<close>

function decimal :: "nat \<Rightarrow> jsstring" where
  "decimal n = (if n < 10 then [0x30 + of_nat n]
                else decimal (n div 10) @ [0x30 + of_nat (n mod 10)])"
  by pat_completeness auto
termination
  by (relation "measure id") auto

declare decimal.simps [simp del]

text \<open>
  \<^verbatim>\<open>data.embedding\<close>: reading a property of \<^verbatim>\<open>null\<close> or \<^verbatim>\<open>undefined\<close> throws; an object gives
  the property or \<^verbatim>\<open>undefined\<close>; no other value has a property of this name.
\<close>

definition get_property :: "jsvalue \<Rightarrow> jsstring \<Rightarrow> error + jsvalue" where
  "get_property v key =
     (case v of
        Undefined \<Rightarrow> Inl TypeError
      | Null \<Rightarrow> Inl TypeError
      | Object props \<Rightarrow> Inr (case map_of props key of None \<Rightarrow> Undefined | Some x \<Rightarrow> x)
      | _ \<Rightarrow> Inr Undefined)"

text \<open>\<^verbatim>\<open>!v\<close> is \<open>\<not> truthy v\<close>.\<close>

definition truthy :: "jsvalue \<Rightarrow> bool" where
  "truthy v =
     (case v of
        Undefined \<Rightarrow> False
      | Null \<Rightarrow> False
      | Boolean b \<Rightarrow> b
      | Number x \<Rightarrow> x \<noteq> 0
      | String s \<Rightarrow> s \<noteq> []
      | Array xs \<Rightarrow> True
      | Object props \<Rightarrow> True)"

definition isArray :: "jsvalue \<Rightarrow> bool" where
  "isArray v = (case v of Array xs \<Rightarrow> True | _ \<Rightarrow> False)"

text \<open>Setting a property in an object literal: a later key replaces an earlier one.\<close>

fun set_property :: "jsstring \<Rightarrow> jsvalue \<Rightarrow> (jsstring \<times> jsvalue) list \<Rightarrow> (jsstring \<times> jsvalue) list" where
  "set_property k v [] = [(k, v)]"
| "set_property k v ((k', v') # props) =
     (if k = k' then (k, v) # props else (k', v') # set_property k v props)"

subsection \<open>getEmbedding\<close>

definition getEmbedding :: "jsstring \<Rightarrow> world \<Rightarrow> (error + jsvalue) \<times> world" where
  "getEmbedding text w =
     (case fetch (OLLAMA_API @ js ''/api/embeddings'')
             (Object [(js ''model'', String MODEL_EMBEDDING), (js ''prompt'', String text)]) w of
        (Rejected e, w') \<Rightarrow> (Inl e, w')
      | (Response statusCode body, w') \<Rightarrow>
          if \<not> ok statusCode
          then (Inl (Error (js ''HTTP error! status: '' @ decimal statusCode)), w')
          else
            (case body of
               Inl e \<Rightarrow> (Inl e, w')
             | Inr data \<Rightarrow>
                 (case get_property data (js ''embedding'') of
                    Inl e \<Rightarrow> (Inl e, w')
                  | Inr embedding \<Rightarrow>
                      if \<not> truthy embedding \<or> \<not> isArray embedding
                      then (Inl (Error (js ''Invalid embedding format received from Ollama'')), w')
                      else (Inr embedding, w'))))"

subsection \<open>waitForIndex\<close>

text \<open>
  The \<^verbatim>\<open>for (let i = 0; i < maxAttempts; i++)\<close> loop: an attempt that throws is caught, and
  every attempt that does not return is followed by the two-second sleep.
\<close>

function waitForIndex_loop :: "nat \<Rightarrow> nat \<Rightarrow> world \<Rightarrow> (error + bool) \<times> world" where
  "waitForIndex_loop maxAttempts i w =
     (if i < maxAttempts then
        (case describeIndex INDEX_NAME w of
           (Inr description, w') \<Rightarrow>
             if status_ready description then (Inr True, w')
             else waitForIndex_loop maxAttempts (i + 1) (sleep 2000 w')
         | (Inl e, w') \<Rightarrow> waitForIndex_loop maxAttempts (i + 1) (sleep 2000 w'))
      else
        (Inl (Error (js ''Index '' @ INDEX_NAME @ js '' not ready after '' @ decimal maxAttempts
                     @ js '' attempts'')), w))"
  by pat_completeness auto
termination
  by (relation "measure (\<lambda>(maxAttempts, i, w). maxAttempts - i)") auto

declare waitForIndex_loop.simps [simp del]

text \<open>The parameter defaults to 10 when the argument is left out.\<close>

definition waitForIndex :: "nat option \<Rightarrow> world \<Rightarrow> (error + bool) \<times> world" where
  "waitForIndex maxAttempts w =
     waitForIndex_loop (case maxAttempts of None \<Rightarrow> 10 | Some n \<Rightarrow> n) 0 w"

subsection \<open>addDocument and addDocuments\<close>

record status_result =
  success :: bool
  message :: jsstring

record ingest_result = status_result +
  chunks :: "(jsstring \<times> jsstring) list"

text \<open>The record id \<^verbatim>\<open>`doc_${Date.now()}_chunk_${i}`\<close>.\<close>

definition chunk_id :: "nat \<Rightarrow> nat \<Rightarrow> jsstring" where
  "chunk_id now i = js ''doc_'' @ decimal now @ js ''_chunk_'' @ decimal i"

text \<open>
  The metadata \<^verbatim>\<open>{ ...metadata, text: chunk, chunkIndex: i, totalChunks: chunks.length,
  timestamp: new Date().toISOString(), userId }\<close>, the time stamp already rendered.
\<close>

definition chunk_metadata ::
  "jsstring \<Rightarrow> (jsstring \<times> jsvalue) list \<Rightarrow> jsstring \<Rightarrow> nat \<Rightarrow> nat \<Rightarrow> jsstring
   \<Rightarrow> (jsstring \<times> jsvalue) list" where
  "chunk_metadata userId meta chunk i totalChunks timestamp =
     set_property (js ''userId'') (String userId)
       (set_property (js ''timestamp'') (String timestamp)
          (set_property (js ''totalChunks'') (Number (of_nat totalChunks))
             (set_property (js ''chunkIndex'') (Number (of_nat i))
                (set_property (js ''text'') (String chunk) meta))))"

text \<open>
  The \<^verbatim>\<open>for (let i = 0; i < chunks.length; i++)\<close> loop of \<^verbatim>\<open>addDocument\<close>. The clock is
  read twice in each round: by \<^verbatim>\<open>Date.now()\<close> for the id and by \<^verbatim>\<open>new Date()\<close> for the
  metadata.
\<close>

function addDocument_loop ::
  "jsstring \<Rightarrow> (jsstring \<times> jsvalue) list \<Rightarrow> jsstring list \<Rightarrow> nat \<Rightarrow> (jsstring \<times> jsstring) list
   \<Rightarrow> world \<Rightarrow> (error + (jsstring \<times> jsstring) list) \<times> world" where
  "addDocument_loop userId meta chunkList i results w =
     (if i < length chunkList then
        (let chunk = chunkList ! i in
         case getEmbedding chunk w of
           (Inl e, w1) \<Rightarrow> (Inl e, w1)
         | (Inr embedding, w1) \<Rightarrow>
             (let (now, w2) = date_now w1;
                  ident = chunk_id now i;
                  (stamp, w3) = date_now w2;
                  r = \<lparr>id' = ident, values' = embedding,
                       metadata = chunk_metadata userId meta chunk i (length chunkList)
                                    (toISOString w3 stamp)\<rparr>
              in case upsert userId r w3 of
                   (Inl e, w4) \<Rightarrow> (Inl e, w4)
                 | (Inr u, w4) \<Rightarrow>
                     addDocument_loop userId meta chunkList (i + 1) (results @ [(ident, chunk)]) w4))
      else (Inr results, w))"
  by pat_completeness auto
termination
  by (relation "measure (\<lambda>(userId, meta, chunkList, i, results, w). length chunkList - i)") auto

declare addDocument_loop.simps [simp del]

definition addDocument ::
  "jsstring \<Rightarrow> jsstring \<Rightarrow> (jsstring \<times> jsvalue) list \<Rightarrow> world \<Rightarrow> (error + ingest_result) \<times> world" where
  "addDocument userId text meta w =
     (let chunkList = splitIntoChunks text CHUNK_SIZE in
      case addDocument_loop userId meta chunkList 0 [] w of
        (Inl e, w') \<Rightarrow> (Inl e, w')
      | (Inr results, w') \<Rightarrow>
          (Inr \<lparr>success = True,
                message = js ''Added document with '' @ decimal (length chunkList) @ js '' chunks'',
                chunks = results\<rparr>, w'))"

text \<open>The \<^verbatim>\<open>for (const doc of documents)\<close> loop of \<^verbatim>\<open>addDocuments\<close>.\<close>

fun addDocuments_loop ::
  "jsstring \<Rightarrow> (jsstring \<times> jsvalue) list \<Rightarrow> jsstring list \<Rightarrow> ingest_result list \<Rightarrow> world
   \<Rightarrow> (error + ingest_result list) \<times> world" where
  "addDocuments_loop userId meta [] results w = (Inr results, w)"
| "addDocuments_loop userId meta (doc # documents) results w =
     (case addDocument userId doc meta w of
        (Inl e, w') \<Rightarrow> (Inl e, w')
      | (Inr result, w') \<Rightarrow> addDocuments_loop userId meta documents (results @ [result]) w')"

definition addDocuments ::
  "jsstring \<Rightarrow> jsstring list \<Rightarrow> (jsstring \<times> jsvalue) list \<Rightarrow> world
   \<Rightarrow> (error + ingest_result list) \<times> world" where
  "addDocuments userId documents meta w = addDocuments_loop userId meta documents [] w"

subsection \<open>clearIndex, createUserIndex, deleteUserIndex\<close>

definition clearIndex :: "jsstring \<Rightarrow> world \<Rightarrow> (error + status_result) \<times> world" where
  "clearIndex userId w =
     (case deleteAll userId w of
        (Inl e, w') \<Rightarrow> (Inl e, w')
      | (Inr u, w') \<Rightarrow>
          (Inr \<lparr>success = True,
                message = js ''Documents cleared successfully for user '' @ userId\<rparr>, w'))"

definition createUserIndex :: "jsstring \<Rightarrow> world \<Rightarrow> (error + status_result) \<times> world" where
  "createUserIndex userId w =
     (case describeIndex INDEX_NAME w of
        (Inr d, w1) \<Rightarrow>
          (Inr \<lparr>success = True, message = js ''Index ready for user '' @ userId\<rparr>, w1)
      | (Inl e, w1) \<Rightarrow>
          (case createIndex \<lparr>name = INDEX_NAME, dimension = 4096, metric = js ''cosine'',
                             cloud = js ''aws'', region = js ''us-east-1''\<rparr> w1 of
             (Inl e, w2) \<Rightarrow> (Inl e, w2)
           | (Inr u, w2) \<Rightarrow>
               (case waitForIndex None w2 of
                  (Inl e, w3) \<Rightarrow> (Inl e, w3)
                | (Inr b, w3) \<Rightarrow>
                    (Inr \<lparr>success = True,
                          message = js ''Created index and ready for user '' @ userId\<rparr>, w3))))"

definition deleteUserIndex :: "jsstring \<Rightarrow> world \<Rightarrow> (error + status_result) \<times> world" where
  "deleteUserIndex userId w =
     (case clearIndex userId w of
        (Inl e, w') \<Rightarrow> (Inl e, w')
      | (Inr r, w') \<Rightarrow>
          (Inr \<lparr>success = True, message = js ''Deleted all documents for user '' @ userId\<rparr>, w'))"

subsection \<open>Notions used to state the properties\<close>

text \<open>An attempt of \<^verbatim>\<open>waitForIndex\<close> observes the ready flag: the call returns, and the flag is set.\<close>

definition ready_reply :: "reply \<Rightarrow> bool" where
  "ready_reply r = (case r of Fails e \<Rightarrow> False | Succeeds d \<Rightarrow> status_ready d)"

text \<open>The events of \<open>k\<close> attempts that did not return.\<close>

definition polled :: "nat \<Rightarrow> event list" where
  "polled k = concat (replicate k [DescribeIndex INDEX_NAME, Sleep 2000])"

text \<open>
  Worlds to run the pipeline in. In \<open>steady_world\<close> the clock stands at 1000, every
  \<^verbatim>\<open>fetch\<close> returns a one-element embedding and every call of the Pinecone client succeeds
  on a ready index; the index is empty. An instant is rendered there as its number of
  milliseconds: the ISO format of the real rendering plays no part in what follows.
  \<open>always\<close> is the constant answer, \<open>ready_after m\<close> an index that reports ready from call
  \<open>m\<close> on, \<open>fails_at m e\<close> a client whose call \<open>m\<close> throws \<open>e\<close>.
\<close>

definition always :: "'a \<Rightarrow> 'b \<Rightarrow> 'a" where
  "always x k = x"

definition ready_after :: "nat \<Rightarrow> nat \<Rightarrow> reply" where
  "ready_after m k = Succeeds (Description (Some (IndexStatus (m \<le> k))))"

definition fails_at :: "nat \<Rightarrow> error \<Rightarrow> nat \<Rightarrow> reply" where
  "fails_at m e k =
     (if k = m then Fails e else Succeeds (Description (Some (IndexStatus True))))"

definition steady_world :: world where
  "steady_world =
     \<lparr>clock = always 1000, clock_reads = 0,
      fetch_reply = always (Response 200 (Inr (Object [(js ''embedding'', Array [Number 1])]))),
      fetches = 0,
      pinecone_reply = always (Succeeds (Description (Some (IndexStatus True)))),
      pinecone_calls = 0,
      namespaces = always Map.empty,
      events = [],
      toISOString = decimal\<rparr>"

text \<open>Decimal digits, and the number a digit string stands for.\<close>

definition is_digit :: "code_unit \<Rightarrow> bool" where
  "is_digit c \<longleftrightarrow> 0x30 \<le> c \<and> c \<le> 0x39"

definition undecimal :: "jsstring \<Rightarrow> nat" where
  "undecimal ds = foldl (\<lambda>a c. 10 * a + (unat c - 48)) 0 ds"

text \<open>
  One round of the loop of \<^verbatim>\<open>addDocument\<close>, started in \<open>w\<close> at index \<open>i\<close> with the embedding
  already received: the record it sends, and the world once the \<^verbatim>\<open>upsert\<close> call has been made
  (before the index changes).
\<close>

definition round_record ::
  "jsstring \<Rightarrow> (jsstring \<times> jsvalue) list \<Rightarrow> jsstring list \<Rightarrow> nat \<Rightarrow> jsvalue \<Rightarrow> world \<Rightarrow> vrecord" where
  "round_record userId meta chunkList i embedding w =
     \<lparr>id' = chunk_id (clock w (clock_reads w)) i, values' = embedding,
      metadata = chunk_metadata userId meta (chunkList ! i) i (length chunkList)
                   (toISOString w (clock w (clock_reads w + 1)))\<rparr>"

definition round_world :: "jsstring \<Rightarrow> jsstring \<Rightarrow> vrecord \<Rightarrow> world \<Rightarrow> world" where
  "round_world userId chunk r w =
     w\<lparr>fetches := fetches w + 1, clock_reads := clock_reads w + 2,
       pinecone_calls := pinecone_calls w + 1,
       events := events w
         @ [Fetch (OLLAMA_API @ js ''/api/embeddings'')
              (Object [(js ''model'', String MODEL_EMBEDDING), (js ''prompt'', String chunk)]),
            Upsert userId r]\<rparr>"

text \<open>As \<open>steady_world\<close>, but the second call of the Pinecone client throws.\<close>

definition quota_world :: world where
  "quota_world = steady_world\<lparr>pinecone_reply := fails_at 1 (Thrown (js ''quota''))\<rparr>"

section \<open>Basic facts\<close>

lemma js_dot: "js ''.'' = [0x2E]" by (simp add: js_def)
lemma js_dot_space: "js ''. '' = [0x2E, 0x20]" by (simp add: js_def)

lemma is_space_SP: "is_space 0x20" by (simp add: is_space_def)
lemma not_is_space_dot: "\<not> is_space 0x2E" by (simp add: is_space_def)
lemma is_delim_dot: "is_delim 0x2E" by (simp add: is_delim_def)
lemma not_is_delim_SP: "\<not> is_delim 0x20" by (simp add: is_delim_def)

lemma last_dropWhile: "dropWhile P xs \<noteq> [] \<Longrightarrow> last (dropWhile P xs) = last xs"
  by (metis last_appendR takeWhile_dropWhile_id)

lemma trim_Nil: "trim [] = []" by (simp add: trim_def)

lemma trim_hd: "trim s \<noteq> [] \<Longrightarrow> \<not> is_space (hd (trim s))"
proof -
  assume ne: "trim s \<noteq> []"
  let ?u = "dropWhile is_space s"
  from ne have d: "dropWhile is_space (rev ?u) \<noteq> []" by (simp add: trim_def)
  then have u: "?u \<noteq> []" by (cases "?u") simp_all
  have "hd (trim s) = last (dropWhile is_space (rev ?u))"
    using d by (simp add: trim_def hd_rev)
  also have "\<dots> = last (rev ?u)" using d by (rule last_dropWhile)
  also have "\<dots> = hd ?u" using u by (simp add: last_rev)
  finally show ?thesis using hd_dropWhile[OF u] by simp
qed

lemma trim_last: "trim s \<noteq> [] \<Longrightarrow> \<not> is_space (last (trim s))"
proof -
  assume ne: "trim s \<noteq> []"
  let ?u = "dropWhile is_space s"
  from ne have d: "dropWhile is_space (rev ?u) \<noteq> []" by (simp add: trim_def)
  have "last (trim s) = hd (dropWhile is_space (rev ?u))"
    using d by (simp add: trim_def last_rev)
  then show ?thesis using hd_dropWhile[OF d] by simp
qed

lemma trim_fixed: "s \<noteq> [] \<Longrightarrow> \<not> is_space (hd s) \<Longrightarrow> \<not> is_space (last s) \<Longrightarrow> trim s = s"
proof -
  assume s: "s \<noteq> []" and h: "\<not> is_space (hd s)" and l: "\<not> is_space (last s)"
  from s h have 1: "dropWhile is_space s = s" by (cases s) auto
  from s l have "\<not> is_space (hd (rev s))" by (simp add: hd_rev)
  with s have 2: "dropWhile is_space (rev s) = rev s" by (cases "rev s") auto
  show ?thesis by (simp add: trim_def 1 2)
qed

lemma set_trim: "set (trim s) \<subseteq> set s"
proof -
  have "set (trim s) \<subseteq> set (rev (dropWhile is_space s))"
    unfolding trim_def set_rev using set_dropWhileD by fastforce
  also have "\<dots> \<subseteq> set s" using set_dropWhileD by fastforce
  finally show ?thesis .
qed

lemma trim_space_Cons: "is_space c \<Longrightarrow> trim (c # s) = trim s"
  by (simp add: trim_def)

section \<open>preprocessText is idempotent\<close>

lemma not_lower_SP: "\<not> is_lower 0x20" by (simp add: is_lower_def)
lemma not_upper_SP: "\<not> is_upper 0x20" by (simp add: is_upper_def)
lemma not_punct_SP: "\<not> is_punct 0x20" by (simp add: is_punct_def)
lemma punct_not_space: "is_punct c \<Longrightarrow> \<not> is_space c"
  by (auto simp: is_punct_def is_space_def)
lemma punct_not_upper: "is_punct c \<Longrightarrow> \<not> is_upper c"
  by (auto simp: is_punct_def is_upper_def)
lemma upper_not_lower: "is_upper c \<Longrightarrow> \<not> is_lower c"
  by (auto simp: is_lower_def is_upper_def word_le_nat_alt)

subsection \<open>split_camel\<close>

lemma split_camel_Nil_iff: "split_camel s = [] \<longleftrightarrow> s = []"
  by (induction s rule: split_camel.induct) auto

lemma hd_split_camel: "hd (split_camel s) = hd s"
  by (induction s rule: split_camel.induct) auto

lemma no_camel_split_camel: "no_camel (split_camel s)"
  unfolding no_camel_def
  by (induction s rule: split_camel.induct)
     (auto simp: successively_Cons split_camel_Nil_iff hd_split_camel
        not_lower_SP not_upper_SP upper_not_lower)

lemma split_camel_fixed: "no_camel s \<Longrightarrow> split_camel s = s"
  unfolding no_camel_def
  by (induction s rule: split_camel.induct) auto

subsection \<open>collapse_spaces\<close>

lemma collapse_spaces_Nil_iff: "collapse_spaces s = [] \<longleftrightarrow> s = []"
  by (cases s) auto

lemma hd_collapse_spaces:
  "s \<noteq> [] \<Longrightarrow> hd (collapse_spaces s) = (if is_space (hd s) then 0x20 else hd s)"
  by (cases s) auto

lemma successively_dropWhile: "successively Q s \<Longrightarrow> successively Q (dropWhile P s)"
  by (induction s) (auto simp: successively_Cons)

lemma successively_collapse_spaces:
  assumes "\<And>a. Q a 0x20" "\<And>b. Q 0x20 b"
  shows "successively Q s \<Longrightarrow> successively Q (collapse_spaces s)"
proof (induction s rule: collapse_spaces.induct)
  case 1
  then show ?case by simp
next
  case (2 c r)
  show ?case
  proof (cases "is_space c")
    case True
    from 2 have "successively Q r" by (auto simp: successively_Cons)
    then have "successively Q (dropWhile is_space r)" by (rule successively_dropWhile)
    with 2 True have "successively Q (collapse_spaces (dropWhile is_space r))" by simp
    with True assms show ?thesis by (simp add: successively_Cons)
  next
    case False
    from 2 have r: "successively Q r" by (auto simp: successively_Cons)
    with 2 False have ih: "successively Q (collapse_spaces r)" by simp
    show ?thesis
    proof (cases r)
      case Nil
      with False show ?thesis by simp
    next
      case (Cons d r')
      with 2(3) have "Q c d" by simp
      with False ih Cons assms show ?thesis
        by (auto simp: successively_Cons collapse_spaces_Nil_iff)
    qed
  qed
qed

lemma no_camel_collapse_spaces: "no_camel s \<Longrightarrow> no_camel (collapse_spaces s)"
  unfolding no_camel_def
  by (rule successively_collapse_spaces) (simp_all add: not_lower_SP not_upper_SP)

lemma plain_spaces_collapse_spaces: "plain_spaces (collapse_spaces s)"
  unfolding plain_spaces_def
  by (induction s rule: collapse_spaces.induct) auto

lemma spaced_once_collapse_spaces: "spaced_once (collapse_spaces s)"
  unfolding spaced_once_def
proof (induction s rule: collapse_spaces.induct)
  case 1
  then show ?case by simp
next
  case (2 c r)
  show ?case
  proof (cases "is_space c")
    case True
    let ?r = "dropWhile is_space r"
    from 2 True have ih: "successively (\<lambda>a b. \<not> (is_space a \<and> is_space b)) (collapse_spaces ?r)"
      by simp
    show ?thesis
    proof (cases "?r = []")
      case True
      have "collapse_spaces (c # r) = 0x20 # collapse_spaces ?r"
        using \<open>is_space c\<close> by simp
      then show ?thesis by (simp only: True collapse_spaces.simps successively.simps)
    next
      case False
      then have "\<not> is_space (hd ?r)" by (rule hd_dropWhile)
      with False have "\<not> is_space (hd (collapse_spaces ?r))"
        by (simp add: hd_collapse_spaces)
      with ih \<open>is_space c\<close> show ?thesis
        by (simp add: successively_Cons)
    qed
  next
    case False
    with 2 show ?thesis
      by (auto simp: successively_Cons)
  qed
qed

lemma collapse_spaces_fixed: "plain_spaces s \<Longrightarrow> spaced_once s \<Longrightarrow> collapse_spaces s = s"
  unfolding plain_spaces_def spaced_once_def
proof (induction s rule: collapse_spaces.induct)
  case 1
  then show ?case by simp
next
  case (2 c r)
  show ?case
  proof (cases "is_space c")
    case True
    with 2(3) have c: "c = 0x20" by simp
    from True 2(4) have r: "dropWhile is_space r = r" by (cases r) simp_all
    from 2(3,4) have "list_all (\<lambda>c. is_space c \<longrightarrow> c = 0x20) r"
      "successively (\<lambda>a b. \<not> (is_space a \<and> is_space b)) r"
      by (auto simp: successively_Cons)
    with 2(1) True r have "collapse_spaces r = r" by simp
    with True c r show ?thesis by simp
  next
    case False
    from 2(3,4) have "list_all (\<lambda>c. is_space c \<longrightarrow> c = 0x20) r"
      "successively (\<lambda>a b. \<not> (is_space a \<and> is_space b)) r"
      by (auto simp: successively_Cons)
    with 2(2) False show ?thesis by simp
  qed
qed

subsection \<open>strip_before_punct\<close>

lemma strip_nonspace: "\<not> is_space c \<Longrightarrow> strip_before_punct (c # r) = c # strip_before_punct r"
  by simp

lemma strip_match:
  "is_space c \<Longrightarrow> dropWhile is_space r = p # r' \<Longrightarrow> is_punct p \<Longrightarrow>
   strip_before_punct (c # r) = p # strip_before_punct r'"
  by simp

lemma strip_no_match:
  "is_space c \<Longrightarrow> dropWhile is_space r = [] \<or> \<not> is_punct (hd (dropWhile is_space r)) \<Longrightarrow>
   strip_before_punct (c # r) = c # strip_before_punct r"
  by (cases "dropWhile is_space r") (auto simp del: dropWhile_eq_Nil_conv)

lemma strip_cases:
  obtains (nonspace) c r where "s = c # r" "\<not> is_space c"
      "strip_before_punct s = c # strip_before_punct r"
  | (match) c r p r' where "s = c # r" "is_space c" "dropWhile is_space r = p # r'" "is_punct p"
      "strip_before_punct s = p # strip_before_punct r'"
  | (no_match) c r where "s = c # r" "is_space c"
      "dropWhile is_space r = [] \<or> \<not> is_punct (hd (dropWhile is_space r))"
      "strip_before_punct s = c # strip_before_punct r"
  | (empty) "s = []"
proof (cases s)
  case Nil
  then show ?thesis by (rule empty)
next
  case (Cons c r)
  show ?thesis
  proof (cases "is_space c")
    case False
    with Cons show ?thesis by (intro nonspace[of c r]) simp_all
  next
    case True
    show ?thesis
    proof (cases "dropWhile is_space r = [] \<or> \<not> is_punct (hd (dropWhile is_space r))")
      case nm: True
      from Cons True nm strip_no_match[OF True nm] show ?thesis
        by (intro no_match[of c r]) simp_all
    next
      case False
      then obtain p r' where d: "dropWhile is_space r = p # r'" and p: "is_punct p"
        by (cases "dropWhile is_space r") auto
      from Cons True d p strip_match[OF True d p] show ?thesis
        by (intro match[of c r p r']) simp_all
    qed
  qed
qed

lemma strip_space_punct:
  "is_space c \<Longrightarrow> is_punct p \<Longrightarrow> strip_before_punct (c # p # r) = p # strip_before_punct r"
  by (simp add: punct_not_space)

lemma strip_space_other:
  "is_space c \<Longrightarrow> \<not> is_space d \<Longrightarrow> \<not> is_punct d \<Longrightarrow>
   strip_before_punct (c # d # r) = c # d # strip_before_punct r"
  by simp

lemma strip_space_end: "is_space c \<Longrightarrow> strip_before_punct [c] = [c]"
  by simp

lemma strip_Nil_iff: "strip_before_punct s = [] \<longleftrightarrow> s = []"
  by (cases s rule: strip_cases) simp_all

lemma hd_strip:
  "s \<noteq> [] \<Longrightarrow>
   hd (strip_before_punct s) =
     (if is_space (hd s) \<and> dropWhile is_space s \<noteq> [] \<and> is_punct (hd (dropWhile is_space s))
      then hd (dropWhile is_space s) else hd s)"
  by (cases s rule: strip_cases) (auto simp del: dropWhile_eq_Nil_conv)

lemma set_strip: "set (strip_before_punct s) \<subseteq> set s"
proof (induction s rule: length_induct)
  case (1 s)
  show ?case
  proof (cases s rule: strip_cases)
    case (nonspace c r)
    with 1 show ?thesis by auto
  next
    case (match c r p r')
    have sub: "set (p # r') \<subseteq> set r"
      using set_dropWhileD[of _ is_space r] match(3) by auto
    then have "length r' < length s"
      using match(1,3) length_dropWhile_le[of is_space r] by simp
    with 1 have "set (strip_before_punct r') \<subseteq> set r'" by blast
    with match sub show ?thesis by auto
  next
    case (no_match c r)
    with 1 show ?thesis by auto
  next
    case empty
    then show ?thesis by simp
  qed
qed

lemma plain_spaces_strip: "plain_spaces s \<Longrightarrow> plain_spaces (strip_before_punct s)"
  unfolding plain_spaces_def list_all_iff using set_strip by blast

lemma successively_suffix: "successively Q (xs @ ys) \<Longrightarrow> successively Q ys"
  by (simp add: successively_append_iff)

lemma successively_Cons_strip:
  assumes Q: "\<And>a p. is_punct p \<Longrightarrow> Q a p"
    and cr: "successively Q (c # r)" and ih: "successively Q (strip_before_punct r)"
  shows "successively Q (c # strip_before_punct r)"
proof (cases r)
  case Nil
  then show ?thesis by (simp add: strip_Nil_iff[THEN iffD2])
next
  case (Cons d r')
  with cr have "Q c (hd r)" by simp
  then have "Q c (hd (strip_before_punct r))"
    using Cons Q by (simp add: hd_strip del: dropWhile_eq_Nil_conv strip_before_punct.simps)
  with ih show ?thesis by (simp add: successively_Cons)
qed

lemma successively_strip:
  assumes Q: "\<And>a p. is_punct p \<Longrightarrow> Q a p"
  shows "successively Q s \<Longrightarrow> successively Q (strip_before_punct s)"
proof (induction s rule: length_induct)
  case (1 s)
  show ?case
  proof (cases s rule: strip_cases)
    case (nonspace c r)
    from 1(2) nonspace(1) have "successively Q r" by (auto simp: successively_Cons)
    with 1(1) nonspace(1) have "successively Q (strip_before_punct r)" by simp
    with 1(2) nonspace show ?thesis
      by (simp only: successively_Cons_strip[OF Q])
  next
    case (no_match c r)
    from 1(2) no_match(1) have "successively Q r" by (auto simp: successively_Cons)
    with 1(1) no_match(1) have "successively Q (strip_before_punct r)" by simp
    with 1(2) no_match show ?thesis
      by (simp only: successively_Cons_strip[OF Q])
  next
    case (match c r p r')
    from 1(2) match(1) have "successively Q r" by (auto simp: successively_Cons)
    moreover have r: "r = takeWhile is_space r @ p # r'"
      using match(3) takeWhile_dropWhile_id[of is_space r] by simp
    ultimately have pr: "successively Q (p # r')"
      using successively_suffix[of Q "takeWhile is_space r" "p # r'"] by simp
    then have "successively Q r'" by (auto simp: successively_Cons)
    moreover have "length r' < length s"
      using match(1,3) length_dropWhile_le[of is_space r] by simp
    ultimately have "successively Q (strip_before_punct r')" using 1(1) by blast
    with pr match(5) show ?thesis
      by (simp only: successively_Cons_strip[OF Q])
  next
    case empty
    then show ?thesis by simp
  qed
qed

lemma no_camel_strip: "no_camel s \<Longrightarrow> no_camel (strip_before_punct s)"
  unfolding no_camel_def by (rule successively_strip) (simp add: punct_not_upper)

lemma spaced_once_strip: "spaced_once s \<Longrightarrow> spaced_once (strip_before_punct s)"
  unfolding spaced_once_def by (rule successively_strip) (simp add: punct_not_space)

lemma no_space_before_punct_strip: "no_space_before_punct (strip_before_punct s)"
  unfolding no_space_before_punct_def
proof (induction s rule: length_induct)
  case (1 s)
  let ?Q = "\<lambda>a b. \<not> (is_space a \<and> is_punct b)"
  show ?case
  proof (cases s rule: strip_cases)
    case (nonspace c r)
    with 1 have "successively ?Q (strip_before_punct r)" by simp
    with nonspace show ?thesis by (simp add: successively_Cons)
  next
    case (match c r p r')
    have "length r' < length s"
      using match(1,3) length_dropWhile_le[of is_space r] by simp
    with 1 have "successively ?Q (strip_before_punct r')" by blast
    with match show ?thesis by (simp add: successively_Cons punct_not_space)
  next
    case (no_match c r)
    with 1 have ih: "successively ?Q (strip_before_punct r)" by simp
    have "\<not> is_punct (hd (strip_before_punct r))" if "r \<noteq> []"
    proof (cases "is_space (hd r)")
      case True
      with that no_match(3) show ?thesis
        by (auto simp: hd_strip punct_not_space simp del: dropWhile_eq_Nil_conv)
    next
      case False
      with that have "dropWhile is_space r = r" by (cases r) simp_all
      with that False no_match(3) show ?thesis
        by (simp add: hd_strip del: dropWhile_eq_Nil_conv)
    qed
    with ih no_match(4) show ?thesis
      by (auto simp: successively_Cons strip_Nil_iff)
  next
    case empty
    then show ?thesis by simp
  qed
qed

subsection \<open>space_after_punct\<close>

lemma after_nonpunct: "\<not> is_punct c \<Longrightarrow> space_after_punct (c # r) = c # space_after_punct r"
  by (cases r) simp_all

lemma after_punct_space:
  "is_space c \<Longrightarrow> space_after_punct (p # c # r) = p # space_after_punct (c # r)"
  by simp

lemma after_match:
  "is_punct p \<Longrightarrow> \<not> is_space c \<Longrightarrow>
   space_after_punct (p # c # r) = p # 0x20 # c # space_after_punct r"
  by simp

lemma after_before_space:
  "r = [] \<or> is_space (hd r) \<Longrightarrow> space_after_punct (p # r) = p # space_after_punct r"
  by (cases r) auto

lemma after_Nil_iff: "space_after_punct s = [] \<longleftrightarrow> s = []"
  by (induction s rule: space_after_punct.induct) auto

lemma hd_after: "hd (space_after_punct s) = hd s"
  by (induction s rule: space_after_punct.induct) auto

lemma last_after: "last (space_after_punct s) = last s"
  by (induction s rule: space_after_punct.induct) (auto simp: after_Nil_iff)

lemma set_after: "set (space_after_punct s) \<subseteq> insert 0x20 (set s)"
  by (induction s rule: space_after_punct.induct) auto

lemma plain_spaces_after: "plain_spaces s \<Longrightarrow> plain_spaces (space_after_punct s)"
  unfolding plain_spaces_def list_all_iff using set_after by blast

lemma successively_after:
  assumes Q1: "\<And>p. is_punct p \<Longrightarrow> Q p 0x20" and Q2: "\<And>c. \<not> is_space c \<Longrightarrow> Q 0x20 c"
  shows "successively Q s \<Longrightarrow> successively Q (space_after_punct s)"
proof (induction s rule: space_after_punct.induct)
  case (1 p c r)
  from 1(3) have pc: "Q p c" and cr: "successively Q (c # r)" by simp_all
  show ?case
  proof (cases "is_punct p \<and> \<not> is_space c")
    case True
    from cr have r: "successively Q r" by (auto simp: successively_Cons)
    with 1(1) True have ih: "successively Q (space_after_punct r)" by simp
    have "successively Q (c # space_after_punct r)"
    proof (cases r)
      case Nil
      then show ?thesis by simp
    next
      case (Cons d r')
      with cr have "Q c d" by simp
      with ih Cons show ?thesis
        by (simp add: successively_Cons after_Nil_iff hd_after)
    qed
    with True Q1 Q2 show ?thesis by simp
  next
    case False
    with 1(2) cr have ih: "successively Q (space_after_punct (c # r))" by simp
    from False have eq: "space_after_punct (p # c # r) = p # space_after_punct (c # r)"
      by (cases "is_punct p") simp_all
    have "hd (space_after_punct (c # r)) = c" by (simp only: hd_after list.sel)
    with pc ih show ?thesis
      unfolding eq by (simp only: successively_Cons) simp
  qed
qed simp_all

lemma no_camel_after: "no_camel s \<Longrightarrow> no_camel (space_after_punct s)"
  unfolding no_camel_def
  by (rule successively_after) (simp_all add: not_lower_SP not_upper_SP)

lemma spaced_once_after: "spaced_once s \<Longrightarrow> spaced_once (space_after_punct s)"
  unfolding spaced_once_def
  by (rule successively_after) (simp_all add: punct_not_space)

lemma after_snoc_space: "is_space c \<Longrightarrow> space_after_punct (s @ [c]) = space_after_punct s @ [c]"
  by (induction s rule: space_after_punct.induct) simp_all

lemma after_dropWhile:
  "space_after_punct (dropWhile is_space s) = dropWhile is_space (space_after_punct s)"
proof (induction s)
  case Nil
  then show ?case by simp
next
  case (Cons c r)
  show ?case
  proof (cases "is_space c")
    case True
    then have "\<not> is_punct c" using punct_not_space by blast
    with True Cons show ?thesis by (simp add: after_nonpunct)
  next
    case False
    have "space_after_punct (c # r) \<noteq> []" by (simp add: after_Nil_iff)
    moreover have "hd (space_after_punct (c # r)) = c" by (simp add: hd_after)
    ultimately have "dropWhile is_space (space_after_punct (c # r)) = space_after_punct (c # r)"
      using False by (cases "space_after_punct (c # r)") simp_all
    with False show ?thesis by simp
  qed
qed

lemma rstrip_snoc: "rstrip (s @ [c]) = (if is_space c then rstrip s else s @ [c])"
  by (simp add: rstrip_def)

lemma after_rstrip: "space_after_punct (rstrip s) = rstrip (space_after_punct s)"
proof (induction s rule: rev_induct)
  case Nil
  then show ?case by (simp add: rstrip_def)
next
  case (snoc c s)
  show ?case
  proof (cases "is_space c")
    case True
    with snoc show ?thesis by (simp add: rstrip_snoc after_snoc_space)
  next
    case False
    let ?d = "space_after_punct (s @ [c])"
    have ne: "?d \<noteq> []" by (simp add: after_Nil_iff)
    have "last ?d = c" by (simp add: last_after)
    with ne have "?d = butlast ?d @ [c]" by (metis append_butlast_last_id)
    then have "rstrip ?d = ?d" using False by (metis rstrip_snoc)
    with False show ?thesis by (simp add: rstrip_snoc)
  qed
qed

lemma trim_rstrip: "trim s = rstrip (dropWhile is_space s)"
  by (simp add: trim_def rstrip_def)

lemma trim_after: "trim (space_after_punct s) = space_after_punct (trim s)"
  by (simp add: trim_rstrip after_rstrip after_dropWhile)

subsection \<open>trim\<close>

lemma successively_trim: "successively Q s \<Longrightarrow> successively Q (trim s)"
  unfolding trim_def
  by (simp add: successively_dropWhile)

lemma no_camel_trim: "no_camel s \<Longrightarrow> no_camel (trim s)"
  unfolding no_camel_def by (rule successively_trim)

lemma spaced_once_trim: "spaced_once s \<Longrightarrow> spaced_once (trim s)"
  unfolding spaced_once_def by (rule successively_trim)

lemma no_space_before_punct_trim: "no_space_before_punct s \<Longrightarrow> no_space_before_punct (trim s)"
  unfolding no_space_before_punct_def by (rule successively_trim)

lemma plain_spaces_trim: "plain_spaces s \<Longrightarrow> plain_spaces (trim s)"
  unfolding plain_spaces_def list_all_iff using set_trim by blast

lemma trim_trim: "trim (trim s) = trim s"
proof (cases "trim s = []")
  case True
  then show ?thesis by (simp add: trim_Nil)
next
  case False
  then show ?thesis by (intro trim_fixed trim_hd trim_last)
qed

subsection \<open>The second pass\<close>

lemma strip_after_keeps_space:
  assumes c: "is_space c" and so: "spaced_once (c # r)" and nsp: "no_space_before_punct (c # r)"
  shows "strip_before_punct (space_after_punct (c # r))
         = c # strip_before_punct (space_after_punct r)"
proof -
  have np: "\<not> is_punct c" using c punct_not_space by blast
  have eq: "space_after_punct (c # r) = c # space_after_punct r"
    using np by (rule after_nonpunct)
  have r: "dropWhile is_space r = r"
    using so c unfolding spaced_once_def by (cases r) simp_all
  have d: "dropWhile is_space (space_after_punct r) = space_after_punct r"
    using after_dropWhile[of r] r by simp
  have "space_after_punct r = [] \<or> \<not> is_punct (hd (space_after_punct r))"
    using nsp c unfolding no_space_before_punct_def
    by (cases r) (simp_all add: after_Nil_iff hd_after del: space_after_punct.simps)
  then have "dropWhile is_space (space_after_punct r) = []
             \<or> \<not> is_punct (hd (dropWhile is_space (space_after_punct r)))"
    by (simp only: d)
  from strip_no_match[OF c this] show ?thesis by (simp only: eq)
qed

lemma after_strip_after:
  "spaced_once z \<Longrightarrow> no_space_before_punct z \<Longrightarrow>
   space_after_punct (strip_before_punct (space_after_punct z)) = space_after_punct z"
proof (induction z rule: space_after_punct.induct)
  case (1 p c r)
  from 1(3) have so_cr: "spaced_once (c # r)" and pc_sp: "\<not> (is_space p \<and> is_space c)"
    unfolding spaced_once_def by simp_all
  from 1(4) have nsp_cr: "no_space_before_punct (c # r)" and pc_np: "\<not> (is_space p \<and> is_punct c)"
    unfolding no_space_before_punct_def by simp_all
  from so_cr have so_r: "spaced_once r"
    unfolding spaced_once_def by (auto simp: successively_Cons)
  from nsp_cr have nsp_r: "no_space_before_punct r"
    unfolding no_space_before_punct_def by (auto simp: successively_Cons)
  show ?case
  proof (cases "is_punct p \<and> \<not> is_space c")
    case True
    then have p: "is_punct p" and c: "\<not> is_space c" by simp_all
    have psp: "\<not> is_space p" using p by (rule punct_not_space)
    from 1(1)[OF True so_r nsp_r]
    have ih: "space_after_punct (strip_before_punct (space_after_punct r)) = space_after_punct r" .
    have dz: "space_after_punct (p # c # r) = p # 0x20 # c # space_after_punct r"
      using p c by (rule after_match)
    show ?thesis
    proof (cases "is_punct c")
      case cp: True
      have "strip_before_punct (p # 0x20 # c # space_after_punct r)
            = p # c # strip_before_punct (space_after_punct r)"
        by (simp only: strip_nonspace[OF psp] strip_space_punct[OF is_space_SP cp])
      then show ?thesis
        by (simp only: dz after_match[OF p c] ih)
    next
      case False
      have "strip_before_punct (p # 0x20 # c # space_after_punct r)
            = p # 0x20 # c # strip_before_punct (space_after_punct r)"
        by (simp only: strip_nonspace[OF psp] strip_space_other[OF is_space_SP c False])
      then show ?thesis
        by (simp only: dz after_punct_space[OF is_space_SP] after_nonpunct[OF not_punct_SP]
            after_nonpunct[OF False] ih)
    qed
  next
    case False
    from 1(2)[OF False so_cr nsp_cr]
    have ih: "space_after_punct (strip_before_punct (space_after_punct (c # r)))
              = space_after_punct (c # r)" .
    let ?X = "strip_before_punct (space_after_punct (c # r))"
    have dz: "space_after_punct (p # c # r) = p # space_after_punct (c # r)"
      using False by (cases "is_punct p") simp_all
    have step: "strip_before_punct (p # space_after_punct (c # r)) = p # ?X
                \<and> space_after_punct (p # ?X) = p # space_after_punct ?X"
    proof (cases "is_space p")
      case sp: True
      then have c: "\<not> is_space c" and cn: "\<not> is_punct c" using pc_sp pc_np by simp_all
      have pn: "\<not> is_punct p" using sp punct_not_space by blast
      have "space_after_punct (c # r) = c # tl (space_after_punct (c # r))"
        using hd_after[of "c # r"] after_Nil_iff[of "c # r"]
        by (cases "space_after_punct (c # r)") simp_all
      then obtain t where t: "space_after_punct (c # r) = c # t" by blast
      have "strip_before_punct (p # c # t) = p # strip_before_punct (c # t)"
        using strip_no_match[OF sp, of "c # t"] c cn by simp
      with t pn show ?thesis by (simp only: after_nonpunct[OF pn] simp_thms)
    next
      case nsp: False
      have 1: "strip_before_punct (p # space_after_punct (c # r)) = p # ?X"
        using nsp by (rule strip_nonspace)
      show ?thesis
      proof (cases "is_punct p")
        case pn: False
        with 1 show ?thesis by (simp only: after_nonpunct[OF pn] simp_thms)
      next
        case True
        with False have c: "is_space c" by simp
        have "?X = c # strip_before_punct (space_after_punct r)"
          using c so_cr nsp_cr by (rule strip_after_keeps_space)
        then have "?X = [] \<or> is_space (hd ?X)" using c by simp
        from after_before_space[OF this] 1 show ?thesis by (simp only: simp_thms)
      qed
    qed
    then show ?thesis by (simp only: dz ih)
  qed
qed simp_all

text \<open>
  C2. For every string \<open>x\<close>, normalising a second time changes nothing.
\<close>

theorem preprocessText_idempotent:
  "preprocessText (preprocessText x) = preprocessText x"
proof -
  define x3 where "x3 = strip_before_punct (collapse_spaces (split_camel x))"
  define z where "z = trim x3"
  have y: "preprocessText x = space_after_punct z"
    by (simp add: preprocessText_def x3_def z_def trim_after)
  have nc: "no_camel z"
    unfolding z_def x3_def
    by (intro no_camel_trim no_camel_strip no_camel_collapse_spaces no_camel_split_camel)
  have so: "spaced_once z"
    unfolding z_def x3_def
    by (intro spaced_once_trim spaced_once_strip spaced_once_collapse_spaces)
  have ps: "plain_spaces z"
    unfolding z_def x3_def
    by (intro plain_spaces_trim plain_spaces_strip plain_spaces_collapse_spaces)
  have nsp: "no_space_before_punct z"
    unfolding z_def x3_def
    by (intro no_space_before_punct_trim no_space_before_punct_strip)
  have 1: "split_camel (space_after_punct z) = space_after_punct z"
    by (intro split_camel_fixed no_camel_after nc)
  have 2: "collapse_spaces (space_after_punct z) = space_after_punct z"
    by (intro collapse_spaces_fixed plain_spaces_after spaced_once_after ps so)
  have 3: "space_after_punct (strip_before_punct (space_after_punct z)) = space_after_punct z"
    using so nsp by (rule after_strip_after)
  have 4: "trim (space_after_punct z) = space_after_punct z"
    by (simp only: trim_after z_def trim_trim)
  show ?thesis
    unfolding y by (simp only: preprocessText_def 1 2 3 4)
qed

section \<open>Chunk size\<close>

text \<open>
  A document of three sentences of 500, 499 and 1 units, chunked at the size \<open>CHUNK_SIZE\<close>
  that \<open>addDocument\<close> uses.
\<close>

lemma long_document_chunks:
  "splitIntoChunks (replicate 500 0x61 @ js ''. '' @ replicate 499 0x62 @ js ''. c'') CHUNK_SIZE
   = [replicate 500 0x61 @ js ''. '' @ replicate 499 0x62 @ js ''.'', js ''c.'']"
  by code_simp

text \<open>
  C1. The claim bounds every chunk by \<open>maxSize\<close> unless one sentence alone is longer. On the
  text \<^verbatim>\<open>ab. c\<close> with \<open>maxSize = 5\<close> both sentences (\<^verbatim>\<open>ab\<close>, \<^verbatim>\<open>c\<close>) are shorter than 5, yet the
  loop's test \<open>2 + 1 + 1 \<le> 5\<close> admits the second sentence, the separator adds two units and
  the final full stop one more: the only chunk is \<^verbatim>\<open>ab. c.\<close>, of length 6. The same happens
  at the size 1000 of \<open>addDocument\<close>: sentences of 500 and 499 units pass the test
  \<open>500 + 499 + 1 \<le> 1000\<close> and form one chunk of 1002 units.
\<close>

theorem splitIntoChunks_exceeds_size:
  "splitIntoChunks (js ''ab. c'') 5 = [js ''ab. c.'']
   \<and> sentences_of (preprocessText (js ''ab. c'')) = [js ''ab'', js ''c'']
   \<and> length (js ''ab. c.'') = 6
   \<and> CHUNK_SIZE = 1000
   \<and> splitIntoChunks (replicate 500 0x61 @ js ''. '' @ replicate 499 0x62 @ js ''. c'') CHUNK_SIZE
       = [replicate 500 0x61 @ js ''. '' @ replicate 499 0x62 @ js ''.'', js ''c.'']
   \<and> length (replicate 500 0x61 @ js ''. '' @ replicate 499 0x62 @ js ''.'') = 1002"
proof -
  have small: "splitIntoChunks (js ''ab. c'') 5 = [js ''ab. c.'']
     \<and> sentences_of (preprocessText (js ''ab. c'')) = [js ''ab'', js ''c'']
     \<and> length (js ''ab. c.'') = 6"
    by code_simp
  have len: "length (replicate 500 0x61 @ js ''. '' @ replicate 499 0x62 @ js ''.'') = 1002"
    by (simp add: js_def)
  from small long_document_chunks len show ?thesis
    by (simp only: CHUNK_SIZE_def simp_thms)
qed

section \<open>Shape of the chunks\<close>

lemma well_formed_chunkI:
  "cur \<noteq> [] \<Longrightarrow> \<not> is_space (hd cur) \<Longrightarrow> well_formed_chunk (cur @ js ''.'')"
  unfolding well_formed_chunk_def
  by (simp add: js_dot not_is_space_dot trim_fixed)

lemma chunk_loop_well_formed:
  "list_all well_formed_chunk acc \<Longrightarrow> (cur \<noteq> [] \<longrightarrow> \<not> is_space (hd cur)) \<Longrightarrow>
   chunk_loop n segs (acc, cur) = (acc', cur') \<Longrightarrow>
   list_all well_formed_chunk acc' \<and> (cur' \<noteq> [] \<longrightarrow> \<not> is_space (hd cur'))"
proof (induction segs arbitrary: acc cur)
  case Nil
  then show ?case by simp
next
  case (Cons s segs)
  let ?t = "trim s"
  show ?case
  proof (cases "?t = []")
    case True
    with Cons.prems have "chunk_loop n segs (acc, cur) = (acc', cur')" by simp
    from Cons.IH[OF Cons.prems(1,2) this] show ?thesis .
  next
    case ne: False
    then have ht: "\<not> is_space (hd ?t)" by (rule trim_hd)
    show ?thesis
    proof (cases "length cur + length ?t + 1 \<le> n")
      case True
      let ?cur = "cur @ (if cur \<noteq> [] then js ''. '' else []) @ ?t"
      from Cons.prems ne True have run: "chunk_loop n segs (acc, ?cur) = (acc', cur')"
        by (simp add: Let_def)
      have "?cur \<noteq> [] \<longrightarrow> \<not> is_space (hd ?cur)"
        using Cons.prems(2) ht by (cases "cur = []") simp_all
      from Cons.IH[OF Cons.prems(1) this run] show ?thesis .
    next
      case False
      let ?acc = "if cur \<noteq> [] then acc @ [cur @ js ''.''] else acc"
      from Cons.prems ne False have run: "chunk_loop n segs (?acc, ?t) = (acc', cur')"
        by (simp add: Let_def)
      have "list_all well_formed_chunk ?acc"
        using Cons.prems(1,2) by (simp add: well_formed_chunkI)
      from Cons.IH[OF this _ run] ht show ?thesis by simp
    qed
  qed
qed

text \<open>
  C10. For every text and every size (the positive ones included), each chunk returned by
  \<open>splitIntoChunks\<close> is non-empty, ends with the full stop \<^verbatim>\<open>.\<close> (code unit \<open>0x2E\<close>)
  and has no white space at its start or end, so that \<^verbatim>\<open>trim\<close> leaves it unchanged.
\<close>

theorem chunks_well_formed:
  "\<forall>c \<in> set (splitIntoChunks text chunkSize).
     c \<noteq> [] \<and> last c = 0x2E \<and> \<not> is_space (hd c) \<and> \<not> is_space (last c) \<and> trim c = c"
proof -
  obtain acc cur where
    run: "chunk_loop chunkSize (split_delims (preprocessText text)) ([], []) = (acc, cur)"
    by (cases "chunk_loop chunkSize (split_delims (preprocessText text)) ([], [])")
  from chunk_loop_well_formed[OF _ _ run]
  have wf: "list_all well_formed_chunk acc" and hd: "cur \<noteq> [] \<longrightarrow> \<not> is_space (hd cur)"
    by simp_all
  have "list_all well_formed_chunk (splitIntoChunks text chunkSize)"
    using wf hd by (simp add: splitIntoChunks_def run well_formed_chunkI)
  then show ?thesis
    unfolding well_formed_chunk_def list_all_iff by blast
qed

theorem chunks_well_formed_witness:
  "js ''Hello world.'' \<in> set (splitIntoChunks (js ''Hello world. This is great!'') 15)
   \<and> js ''Hello world.'' \<noteq> [] \<and> last (js ''Hello world.'') = 0x2E
   \<and> \<not> is_space (hd (js ''Hello world.'')) \<and> \<not> is_space (last (js ''Hello world.''))
   \<and> trim (js ''Hello world.'') = js ''Hello world.''"
proof -
  have mem: "js ''Hello world.'' \<in> set (splitIntoChunks (js ''Hello world. This is great!'') 15)"
    by code_simp
  from chunks_well_formed[THEN bspec, OF mem] mem show ?thesis by blast
qed

section \<open>The chunks keep every sentence\<close>

lemma split_delims_nodelim: "list_all (\<lambda>c. \<not> is_delim c) t \<Longrightarrow> split_delims t = [t]"
  by (subst split_delims.simps) (simp add: list_all_iff)

lemma split_delims_append:
  "list_all (\<lambda>c. \<not> is_delim c) t \<Longrightarrow> is_delim d \<Longrightarrow>
   split_delims (t @ d # r) = t # split_delims (dropWhile is_delim r)"
  by (subst split_delims.simps)
     (simp add: list_all_iff Let_def)

lemma split_delims_not_Nil: "split_delims s \<noteq> []"
  by (subst split_delims.simps) (simp add: Let_def)

lemma split_delims_Cons:
  "\<not> is_delim c \<Longrightarrow>
   split_delims (c # x) = (c # hd (split_delims x)) # tl (split_delims x)"
  by (subst split_delims.simps, subst (2 3) split_delims.simps) (simp add: Let_def)

lemma split_delims_pieces:
  "list_all (list_all (\<lambda>c. \<not> is_delim c)) (split_delims s)"
proof (induction s rule: split_delims.induct)
  case (1 s)
  have seg: "list_all (\<lambda>c. \<not> is_delim c) (takeWhile (\<lambda>c. \<not> is_delim c) s)"
    by (auto simp: list_all_iff dest: set_takeWhileD)
  show ?case
  proof (cases "dropWhile (\<lambda>c. \<not> is_delim c) s = []")
    case True
    then show ?thesis using seg by (subst split_delims.simps) (simp add: Let_def)
  next
    case False
    from 1[OF refl refl False] seg False show ?thesis
      by (subst split_delims.simps) (simp add: Let_def)
  qed
qed

lemma sentences_of_Nil: "sentences_of [] = []"
  by (simp add: sentences_of_def split_delims_nodelim trim_Nil)

lemma sentences_of_space_Cons: "is_space c \<Longrightarrow> \<not> is_delim c \<Longrightarrow> sentences_of (c # x) = sentences_of x"
proof -
  assume c: "is_space c" "\<not> is_delim c"
  obtain p ps where ps: "split_delims x = p # ps"
    using split_delims_not_Nil[of x] by (cases "split_delims x") auto
  show ?thesis
    by (simp add: sentences_of_def split_delims_Cons c ps trim_space_Cons)
qed

lemma good_sentence_trim: "good_sentence t \<Longrightarrow> trim t = t"
  by (simp add: good_sentence_def trim_fixed)

lemma sentences_of_good: "good_sentence t \<Longrightarrow> sentences_of t = [t]"
proof -
  assume g: "good_sentence t"
  then have "split_delims t = [t]" and "t \<noteq> []"
    by (simp_all add: good_sentence_def split_delims_nodelim)
  then show ?thesis
    by (simp add: sentences_of_def good_sentence_trim[OF g])
qed

lemma sentences_of_good_dot: "good_sentence t \<Longrightarrow> sentences_of (t @ js ''. '' @ x) = t # sentences_of x"
proof -
  assume g: "good_sentence t"
  then have nd: "list_all (\<lambda>c. \<not> is_delim c) t" and ne: "t \<noteq> []"
    by (simp_all add: good_sentence_def)
  have "split_delims (t @ js ''. '' @ x) = t # split_delims (0x20 # x)"
    using split_delims_append[OF nd is_delim_dot, of "0x20 # x"]
    by (simp add: js_dot_space not_is_delim_SP)
  then have "sentences_of (t @ js ''. '' @ x) = t # sentences_of (0x20 # x)"
    using ne by (simp add: sentences_of_def good_sentence_trim[OF g])
  then show ?thesis
    by (simp add: sentences_of_space_Cons is_space_SP not_is_delim_SP)
qed

lemma sentences_of_join: "list_all good_sentence g \<Longrightarrow> sentences_of (join_sentences g) = g"
  by (induction g rule: join_sentences.induct)
     (simp_all add: sentences_of_Nil sentences_of_good sentences_of_good_dot)

lemma join_sentences_Nil_iff: "list_all good_sentence g \<Longrightarrow> join_sentences g = [] \<longleftrightarrow> g = []"
  by (induction g rule: join_sentences.induct) (simp_all add: good_sentence_def)

lemma join_sentences_snoc:
  "g \<noteq> [] \<Longrightarrow> join_sentences (g @ [t]) = join_sentences g @ js ''. '' @ t"
  by (induction g rule: join_sentences.induct) simp_all

lemma good_sentence_trimI:
  "list_all (\<lambda>c. \<not> is_delim c) s \<Longrightarrow> trim s \<noteq> [] \<Longrightarrow> good_sentence (trim s)"
  unfolding good_sentence_def
  using set_trim[of s] by (auto simp: list_all_iff trim_hd trim_last)


lemma chunk_loop_groups:
  "list_all (list_all (\<lambda>c. \<not> is_delim c)) segs \<Longrightarrow>
   list_all (list_all good_sentence) gs \<Longrightarrow> list_all good_sentence g \<Longrightarrow>
   \<exists>gs' g'. chunk_loop n segs (map render gs, join_sentences g) = (map render gs', join_sentences g')
      \<and> list_all (list_all good_sentence) gs' \<and> list_all good_sentence g'
      \<and> concat gs' @ g' = concat gs @ g @ filter (\<lambda>t. t \<noteq> []) (map trim segs)"
proof (induction segs arbitrary: gs g)
  case Nil
  then show ?case by auto
next
  case (Cons s segs)
  let ?t = "trim s"
  from Cons.prems(1) have segs: "list_all (list_all (\<lambda>c. \<not> is_delim c)) segs"
    and s: "list_all (\<lambda>c. \<not> is_delim c) s" by simp_all
  show ?case
  proof (cases "?t = []")
    case True
    from Cons.IH[OF segs Cons.prems(2,3)] True show ?thesis by simp
  next
    case ne: False
    from good_sentence_trimI[OF s ne] have gt: "good_sentence ?t" .
    show ?thesis
    proof (cases "length (join_sentences g) + length ?t + 1 \<le> n")
      case True
      have g': "list_all good_sentence (g @ [?t])" using Cons.prems(3) gt by simp
      have eq: "join_sentences g @ (if join_sentences g \<noteq> [] then js ''. '' else []) @ ?t
                = join_sentences (g @ [?t])"
        using join_sentences_Nil_iff[OF Cons.prems(3)]
        by (cases "g = []") (simp_all add: join_sentences_snoc)
      from Cons.IH[OF segs Cons.prems(2) g'] ne True show ?thesis
        by (simp add: Let_def eq)
    next
      case False
      show ?thesis
      proof (cases "g = []")
        case True
        have "list_all good_sentence [?t]" using gt by simp
        from Cons.IH[OF segs Cons.prems(2) this] ne False True show ?thesis
          by (simp add: Let_def)
      next
        case gne: False
        then have jne: "join_sentences g \<noteq> []"
          using join_sentences_Nil_iff[OF Cons.prems(3)] by simp
        have gs': "list_all (list_all good_sentence) (gs @ [g])"
          using Cons.prems(2,3) by simp
        have "list_all good_sentence [?t]" using gt by simp
        from Cons.IH[OF segs gs' this] ne False jne show ?thesis
          by (simp add: Let_def render_def)
      qed
    qed
  qed
qed

lemma sentences_of_render:
  "list_all good_sentence g \<Longrightarrow> sentences_of (butlast (render g)) = g"
  by (simp add: render_def js_dot sentences_of_join)

lemma concat_sentences_of_render:
  "list_all (list_all good_sentence) gs \<Longrightarrow>
   concat (map (\<lambda>c. sentences_of (butlast c)) (map render gs)) = concat gs"
  by (induction gs) (simp_all add: sentences_of_render)

text \<open>
  C3. Strip the full stop the chunker appended to each chunk (\<open>butlast\<close>), read the
  sentences of each chunk and concatenate them in chunk order: the result is exactly the
  list of non-empty trimmed pieces of \<open>preprocessText text\<close> between the delimiters
  \<^verbatim>\<open>. ! ?\<close>, in order, none dropped and none repeated. This holds for every size.
\<close>

theorem chunks_reconstruct_sentences:
  "concat (map (\<lambda>c. sentences_of (butlast c)) (splitIntoChunks text chunkSize))
   = sentences_of (preprocessText text)"
proof -
  let ?segs = "split_delims (preprocessText text)"
  from chunk_loop_groups[OF split_delims_pieces, of "[]" "[]" chunkSize "preprocessText text"]
  obtain gs g where
    run: "chunk_loop chunkSize ?segs ([], []) = (map render gs, join_sentences g)"
    and gs: "list_all (list_all good_sentence) gs" and g: "list_all good_sentence g"
    and all: "concat gs @ g = filter (\<lambda>t. t \<noteq> []) (map trim ?segs)"
    by auto
  have "concat (map (\<lambda>c. sentences_of (butlast c)) (splitIntoChunks text chunkSize))
        = concat gs @ g"
  proof (cases "g = []")
    case True
    then show ?thesis
      using concat_sentences_of_render[OF gs]
      by (simp add: splitIntoChunks_def run)
  next
    case False
    then have "join_sentences g \<noteq> []" using join_sentences_Nil_iff[OF g] by simp
    then show ?thesis
      using concat_sentences_of_render[OF gs] sentences_of_render[OF g]
      by (simp add: splitIntoChunks_def run render_def)
  qed
  then show ?thesis by (simp add: all sentences_of_def)
qed

section \<open>getEmbedding\<close>

lemma getEmbedding_world:
  "snd (getEmbedding text w) =
     w\<lparr>fetches := fetches w + 1,
       events := events w @ [Fetch (OLLAMA_API @ js ''/api/embeddings'')
         (Object [(js ''model'', String MODEL_EMBEDDING), (js ''prompt'', String text)])]\<rparr>"
  by (simp add: getEmbedding_def fetch_def split: fetch_result.splits sum.splits)

text \<open>
  C7, as the code has it. \<open>getEmbedding\<close> makes exactly one \<^verbatim>\<open>fetch\<close> (one request to the
  embeddings endpoint, no retry), and it fails in every case but one:
  \<^item> if \<^verbatim>\<open>fetch\<close> rejects, that error is thrown on;
  \<^item> on every status outside 200-299 it throws \<^verbatim>\<open>HTTP error! status: <status>\<close>;
  \<^item> on a success status whose body does not parse, the error of \<^verbatim>\<open>response.json()\<close> is
    thrown on;
  \<^item> on a success status whose body parses to a value of which no property can be read
    (\<^verbatim>\<open>null\<close>), the \<^verbatim>\<open>TypeError\<close> of reading \<^verbatim>\<open>data.embedding\<close> is thrown;
  \<^item> on a success status whose body parses to a value \<open>data\<close> with \<^verbatim>\<open>data.embedding\<close> not an
    array (missing, or any other value), it throws
    \<^verbatim>\<open>Invalid embedding format received from Ollama\<close>;
  \<^item> otherwise \<^verbatim>\<open>data.embedding\<close> is an array, and exactly that array is returned, whatever
    its elements are.
  So a value is returned only on a success status with a parsed body whose embedding
  property is an array, and the value is that array.
\<close>

theorem getEmbedding_contract:
  "snd (getEmbedding text w) =
     w\<lparr>fetches := fetches w + 1,
       events := events w @ [Fetch (js ''http://localhost:11434/api/embeddings'')
         (Object [(js ''model'', String (js ''llama3.2'')), (js ''prompt'', String text)])]\<rparr>
   \<and> (\<forall>e. fetch_reply w (fetches w) = Rejected e \<longrightarrow> fst (getEmbedding text w) = Inl e)
   \<and> (\<forall>st body. fetch_reply w (fetches w) = Response st body \<and> \<not> ok st \<longrightarrow>
         fst (getEmbedding text w) = Inl (Error (js ''HTTP error! status: '' @ decimal st)))
   \<and> (\<forall>st e. fetch_reply w (fetches w) = Response st (Inl e) \<and> ok st \<longrightarrow>
         fst (getEmbedding text w) = Inl e)
   \<and> (\<forall>st. fetch_reply w (fetches w) = Response st (Inr Null) \<and> ok st \<longrightarrow>
         fst (getEmbedding text w) = Inl TypeError)
   \<and> (\<forall>st data e. fetch_reply w (fetches w) = Response st (Inr data) \<and> ok st
         \<and> get_property data (js ''embedding'') = Inl e \<longrightarrow>
         fst (getEmbedding text w) = Inl e)
   \<and> (\<forall>st data v. fetch_reply w (fetches w) = Response st (Inr data) \<and> ok st
         \<and> get_property data (js ''embedding'') = Inr v \<longrightarrow>
         fst (getEmbedding text w) =
           (if isArray v then Inr v
            else Inl (Error (js ''Invalid embedding format received from Ollama''))))
   \<and> (\<forall>v. fst (getEmbedding text w) = Inr v \<longrightarrow>
         isArray v
         \<and> (\<exists>st data. fetch_reply w (fetches w) = Response st (Inr data) \<and> ok st
               \<and> get_property data (js ''embedding'') = Inr v))"
proof -
  have arr: "\<And>v. isArray v \<Longrightarrow> truthy v"
    by (auto simp: isArray_def truthy_def split: jsvalue.splits)
  have 1: "snd (getEmbedding text w) =
     w\<lparr>fetches := fetches w + 1,
       events := events w @ [Fetch (js ''http://localhost:11434/api/embeddings'')
         (Object [(js ''model'', String (js ''llama3.2'')), (js ''prompt'', String text)])]\<rparr>"
    by (simp add: getEmbedding_world OLLAMA_API_def MODEL_EMBEDDING_def js_def)
  have 2: "\<forall>e. fetch_reply w (fetches w) = Rejected e \<longrightarrow> fst (getEmbedding text w) = Inl e"
    by (simp add: getEmbedding_def fetch_def)
  have 3: "\<forall>st body. fetch_reply w (fetches w) = Response st body \<and> \<not> ok st \<longrightarrow>
         fst (getEmbedding text w) = Inl (Error (js ''HTTP error! status: '' @ decimal st))"
    by (simp add: getEmbedding_def fetch_def)
  have 4: "\<forall>st e. fetch_reply w (fetches w) = Response st (Inl e) \<and> ok st \<longrightarrow>
         fst (getEmbedding text w) = Inl e"
    by (simp add: getEmbedding_def fetch_def)
  have 6: "\<forall>st data e. fetch_reply w (fetches w) = Response st (Inr data) \<and> ok st
         \<and> get_property data (js ''embedding'') = Inl e \<longrightarrow>
         fst (getEmbedding text w) = Inl e"
    by (simp add: getEmbedding_def fetch_def)
  have 5: "\<forall>st. fetch_reply w (fetches w) = Response st (Inr Null) \<and> ok st \<longrightarrow>
         fst (getEmbedding text w) = Inl TypeError"
    by (simp add: getEmbedding_def fetch_def get_property_def)
  have 7: "\<forall>st data v. fetch_reply w (fetches w) = Response st (Inr data) \<and> ok st
         \<and> get_property data (js ''embedding'') = Inr v \<longrightarrow>
         fst (getEmbedding text w) =
           (if isArray v then Inr v
            else Inl (Error (js ''Invalid embedding format received from Ollama'')))"
    by (simp add: getEmbedding_def fetch_def arr)
  have 8: "\<forall>v. fst (getEmbedding text w) = Inr v \<longrightarrow>
         isArray v
         \<and> (\<exists>st data. fetch_reply w (fetches w) = Response st (Inr data) \<and> ok st
               \<and> get_property data (js ''embedding'') = Inr v)"
    by (auto simp: getEmbedding_def fetch_def split: fetch_result.splits sum.splits if_splits)
  from 1 2 3 4 5 6 7 8 show ?thesis by blast
qed

theorem getEmbedding_contract_witness:
  "fetches (snd (getEmbedding (js ''hi'') steady_world)) = 1
   \<and> events (snd (getEmbedding (js ''hi'') steady_world)) =
       [Fetch (js ''http://localhost:11434/api/embeddings'')
          (Object [(js ''model'', String (js ''llama3.2'')), (js ''prompt'', String (js ''hi''))])]
   \<and> fst (getEmbedding (js ''hi'') (steady_world\<lparr>fetch_reply := always (Rejected (Thrown (js ''ECONNREFUSED'')))\<rparr>))
       = Inl (Thrown (js ''ECONNREFUSED''))
   \<and> fst (getEmbedding (js ''hi'') (steady_world\<lparr>fetch_reply := always (Response 500 (Inr Null))\<rparr>))
       = Inl (Error (js ''HTTP error! status: 500''))
   \<and> fst (getEmbedding (js ''hi'') (steady_world\<lparr>fetch_reply := always (Response 200 (Inl (Thrown (js ''invalid json''))))\<rparr>))
       = Inl (Thrown (js ''invalid json''))
   \<and> fst (getEmbedding (js ''hi'') (steady_world\<lparr>fetch_reply := always (Response 200 (Inr Null))\<rparr>))
       = Inl TypeError
   \<and> fst (getEmbedding (js ''hi'') steady_world) = Inr (Array [Number 1])
   \<and> isArray (Array [Number 1])
   \<and> fst (getEmbedding (js ''hi'') (steady_world\<lparr>fetch_reply := always (Response 200 (Inr (Object [(js ''error'', String (js ''no model''))])))\<rparr>))
       = Inl (Error (js ''Invalid embedding format received from Ollama''))"
proof -
  let ?refused = "steady_world\<lparr>fetch_reply := always (Rejected (Thrown (js ''ECONNREFUSED'')))\<rparr>"
  let ?down = "steady_world\<lparr>fetch_reply := always (Response 500 (Inr Null))\<rparr>"
  let ?garbled = "steady_world\<lparr>fetch_reply := always (Response 200 (Inl (Thrown (js ''invalid json''))))\<rparr>"
  let ?null = "steady_world\<lparr>fetch_reply := always (Response 200 (Inr Null))\<rparr>"
  let ?other = "steady_world\<lparr>fetch_reply := always (Response 200 (Inr (Object [(js ''error'', String (js ''no model''))])))\<rparr>"
  have d500: "decimal 500 = js ''500''" by code_simp
  have msg: "js ''HTTP error! status: '' @ js ''500'' = js ''HTTP error! status: 500''"
    by (simp add: js_def)
  have r0: "fetch_reply steady_world (fetches steady_world)
           = Response 200 (Inr (Object [(js ''embedding'', Array [Number 1])]))"
    and r1: "fetch_reply ?refused (fetches ?refused) = Rejected (Thrown (js ''ECONNREFUSED''))"
    and r2: "fetch_reply ?down (fetches ?down) = Response 500 (Inr Null)"
    and r3: "fetch_reply ?garbled (fetches ?garbled) = Response 200 (Inl (Thrown (js ''invalid json'')))"
    and r4: "fetch_reply ?null (fetches ?null) = Response 200 (Inr Null)"
    and r5: "fetch_reply ?other (fetches ?other)
           = Response 200 (Inr (Object [(js ''error'', String (js ''no model''))]))"
    by (simp_all add: steady_world_def always_def)
  have ok200: "ok 200" and ok500: "\<not> ok 500" by (simp_all add: ok_def)
  have g0: "get_property (Object [(js ''embedding'', Array [Number 1])]) (js ''embedding'')
            = Inr (Array [Number 1])"
    by (simp add: get_property_def)
  have g5: "get_property (Object [(js ''error'', String (js ''no model''))]) (js ''embedding'')
            = Inr Undefined"
    by (simp add: get_property_def js_def)
  have arr: "isArray (Array [Number 1])" and und: "\<not> isArray Undefined"
    by (simp_all add: isArray_def)
  note c = getEmbedding_contract
  have w0: "snd (getEmbedding (js ''hi'') steady_world) =
     steady_world\<lparr>fetches := fetches steady_world + 1,
       events := events steady_world @ [Fetch (js ''http://localhost:11434/api/embeddings'')
         (Object [(js ''model'', String (js ''llama3.2'')), (js ''prompt'', String (js ''hi''))])]\<rparr>"
    using c[of "js ''hi''" steady_world] by (rule conjunct1)
  have a1: "fetches (snd (getEmbedding (js ''hi'') steady_world)) = 1"
    and a2: "events (snd (getEmbedding (js ''hi'') steady_world)) =
       [Fetch (js ''http://localhost:11434/api/embeddings'')
          (Object [(js ''model'', String (js ''llama3.2'')), (js ''prompt'', String (js ''hi''))])]"
    unfolding w0 by (simp_all add: steady_world_def)
  have a3: "fst (getEmbedding (js ''hi'') ?refused) = Inl (Thrown (js ''ECONNREFUSED''))"
    using c[of "js ''hi''" ?refused] r1 by blast
  have "fst (getEmbedding (js ''hi'') ?down) = Inl (Error (js ''HTTP error! status: '' @ decimal 500))"
    using c[of "js ''hi''" ?down] r2 ok500 by blast
  then have a4: "fst (getEmbedding (js ''hi'') ?down) = Inl (Error (js ''HTTP error! status: 500''))"
    by (simp only: d500 msg)
  have a5: "fst (getEmbedding (js ''hi'') ?garbled) = Inl (Thrown (js ''invalid json''))"
    using c[of "js ''hi''" ?garbled] r3 ok200 by blast
  have a6: "fst (getEmbedding (js ''hi'') ?null) = Inl TypeError"
    using c[of "js ''hi''" ?null] r4 ok200 by blast
  have "fst (getEmbedding (js ''hi'') steady_world) =
          (if isArray (Array [Number 1]) then Inr (Array [Number 1])
           else Inl (Error (js ''Invalid embedding format received from Ollama'')))"
    using c[of "js ''hi''" steady_world] r0 ok200 g0 by blast
  then have a7: "fst (getEmbedding (js ''hi'') steady_world) = Inr (Array [Number 1])"
    using arr by simp
  have "fst (getEmbedding (js ''hi'') ?other) =
          (if isArray Undefined then Inr Undefined
           else Inl (Error (js ''Invalid embedding format received from Ollama'')))"
    using c[of "js ''hi''" ?other] r5 ok200 g5 by blast
  then have a9: "fst (getEmbedding (js ''hi'') ?other)
                 = Inl (Error (js ''Invalid embedding format received from Ollama''))"
    using und by simp
  have a8: "isArray (Array [Number 1])"
    using c[of "js ''hi''" steady_world] a7 by blast
  from a1 a2 a3 a4 a5 a6 a7 a8 a9 show ?thesis by blast
qed

text \<open>
  C7 as stated asks for an error whenever the embedding field is not a numeric array. The
  check is \<^verbatim>\<open>Array.isArray\<close> only: an array of strings is returned as the embedding.
\<close>

theorem getEmbedding_accepts_non_numeric_array:
  "fst (getEmbedding (js ''hi'')
         (steady_world\<lparr>fetch_reply :=
            always (Response 200 (Inr (Object [(js ''embedding'', Array [String (js ''abc'')])])))\<rparr>))
   = Inr (Array [String (js ''abc'')])"
  by (simp add: getEmbedding_def fetch_def always_def ok_def get_property_def truthy_def
      isArray_def steady_world_def)

section \<open>createUserIndex on an existing index\<close>

lemma describeIndex_eq:
  "describeIndex n w =
     (case pinecone_reply w (pinecone_calls w) of Fails e \<Rightarrow> Inl e | Succeeds d \<Rightarrow> Inr d,
      w\<lparr>pinecone_calls := pinecone_calls w + 1, events := events w @ [DescribeIndex n]\<rparr>)"
  by (simp add: describeIndex_def pinecone_call_def split: reply.splits)

text \<open>
  C5. If the \<^verbatim>\<open>describeIndex\<close> call of \<open>createUserIndex\<close> returns, the result is success with
  the message \<^verbatim>\<open>Index ready for user <userId>\<close>, and the only thing done to the outside is
  that one \<^verbatim>\<open>describeIndex\<close> call: no \<^verbatim>\<open>createIndex\<close>, no polling, no sleep. If the next
  \<^verbatim>\<open>describeIndex\<close> call returns too (the index is still there), a second
  \<open>createUserIndex\<close> right after the first succeeds in the same way, and the two calls
  together have made two \<^verbatim>\<open>describeIndex\<close> calls and nothing else.
\<close>

theorem createUserIndex_existing:
  assumes "pinecone_reply w (pinecone_calls w) = Succeeds d"
  shows "createUserIndex userId w =
           (Inr \<lparr>success = True, message = js ''Index ready for user '' @ userId\<rparr>,
            w\<lparr>pinecone_calls := pinecone_calls w + 1,
              events := events w @ [DescribeIndex INDEX_NAME]\<rparr>)
         \<and> (\<forall>d'. pinecone_reply w (pinecone_calls w + 1) = Succeeds d' \<longrightarrow>
               createUserIndex userId (snd (createUserIndex userId w)) =
                 (Inr \<lparr>success = True, message = js ''Index ready for user '' @ userId\<rparr>,
                  w\<lparr>pinecone_calls := pinecone_calls w + 2,
                    events := events w @ [DescribeIndex INDEX_NAME, DescribeIndex INDEX_NAME]\<rparr>))"
  using assms by (simp add: createUserIndex_def describeIndex_eq)

theorem createUserIndex_existing_witness:
  "createUserIndex (js ''alice'') steady_world =
     (Inr \<lparr>success = True, message = js ''Index ready for user alice''\<rparr>,
      steady_world\<lparr>pinecone_calls := 1, events := [DescribeIndex INDEX_NAME]\<rparr>)
   \<and> createUserIndex (js ''alice'') (snd (createUserIndex (js ''alice'') steady_world)) =
     (Inr \<lparr>success = True, message = js ''Index ready for user alice''\<rparr>,
      steady_world\<lparr>pinecone_calls := 2,
        events := [DescribeIndex INDEX_NAME, DescribeIndex INDEX_NAME]\<rparr>)"
proof -
  have r: "\<And>k. pinecone_reply steady_world k = Succeeds (Description (Some (IndexStatus True)))"
    by (simp add: steady_world_def always_def)
  have z: "pinecone_calls steady_world = 0" "events steady_world = []"
    by (simp_all add: steady_world_def)
  have m: "js ''Index ready for user '' @ js ''alice'' = js ''Index ready for user alice''"
    by (simp add: js_def)
  note t = createUserIndex_existing[OF r, of "js ''alice''"]
  have a: "createUserIndex (js ''alice'') steady_world =
     (Inr \<lparr>success = True, message = js ''Index ready for user alice''\<rparr>,
      steady_world\<lparr>pinecone_calls := 1, events := [DescribeIndex INDEX_NAME]\<rparr>)"
    using t by (simp add: z m)
  have b: "createUserIndex (js ''alice'') (snd (createUserIndex (js ''alice'') steady_world)) =
     (Inr \<lparr>success = True, message = js ''Index ready for user alice''\<rparr>,
      steady_world\<lparr>pinecone_calls := 2,
        events := [DescribeIndex INDEX_NAME, DescribeIndex INDEX_NAME]\<rparr>)"
  proof -
    from t r have "createUserIndex (js ''alice'') (snd (createUserIndex (js ''alice'') steady_world)) =
       (Inr \<lparr>success = True, message = js ''Index ready for user '' @ js ''alice''\<rparr>,
        steady_world\<lparr>pinecone_calls := pinecone_calls steady_world + 2,
          events := events steady_world @ [DescribeIndex INDEX_NAME, DescribeIndex INDEX_NAME]\<rparr>)"
      by blast
    then show ?thesis by (simp add: z m)
  qed
  from a b show ?thesis by (rule conjI)
qed

section \<open>deleteUserIndex and clearIndex\<close>

lemma clearIndex_eq:
  "clearIndex userId w =
     (case pinecone_reply w (pinecone_calls w) of
        Fails e \<Rightarrow>
          (Inl e, w\<lparr>pinecone_calls := pinecone_calls w + 1, events := events w @ [DeleteAll userId]\<rparr>)
      | Succeeds d \<Rightarrow>
          (Inr \<lparr>success = True, message = js ''Documents cleared successfully for user '' @ userId\<rparr>,
           w\<lparr>pinecone_calls := pinecone_calls w + 1, events := events w @ [DeleteAll userId],
             namespaces := (namespaces w)(userId := Map.empty)\<rparr>))"
  by (simp add: clearIndex_def deleteAll_def pinecone_call_def split: reply.splits)

text \<open>
  C8. For every user id and every world, \<open>deleteUserIndex\<close> and \<open>clearIndex\<close> leave the
  same world behind and throw the same error in the same cases; when they succeed they
  differ only in the message. What they do is exactly one \<^verbatim>\<open>deleteAll\<close> on the user's
  namespace: no other call is made (so none that touches the index itself), the user's
  namespace is empty afterwards and every other namespace is as before.
\<close>

theorem deleteUserIndex_is_clearIndex:
  "snd (deleteUserIndex userId w) = snd (clearIndex userId w)
   \<and> (\<forall>e. fst (deleteUserIndex userId w) = Inl e \<longleftrightarrow> fst (clearIndex userId w) = Inl e)
   \<and> ((\<forall>e. fst (clearIndex userId w) \<noteq> Inl e) \<longrightarrow>
        fst (clearIndex userId w) =
          Inr \<lparr>success = True, message = js ''Documents cleared successfully for user '' @ userId\<rparr>
        \<and> fst (deleteUserIndex userId w) =
          Inr \<lparr>success = True, message = js ''Deleted all documents for user '' @ userId\<rparr>
        \<and> namespaces (snd (clearIndex userId w)) userId = Map.empty)
   \<and> events (snd (clearIndex userId w)) = events w @ [DeleteAll userId]
   \<and> (\<forall>ns. ns \<noteq> userId \<longrightarrow> namespaces (snd (clearIndex userId w)) ns = namespaces w ns)"
  by (simp add: deleteUserIndex_def clearIndex_eq split: reply.splits)

theorem deleteUserIndex_is_clearIndex_witness:
  "snd (deleteUserIndex (js ''alice'') steady_world) = snd (clearIndex (js ''alice'') steady_world)
   \<and> fst (clearIndex (js ''alice'') steady_world) =
       Inr \<lparr>success = True, message = js ''Documents cleared successfully for user alice''\<rparr>
   \<and> fst (deleteUserIndex (js ''alice'') steady_world) =
       Inr \<lparr>success = True, message = js ''Deleted all documents for user alice''\<rparr>
   \<and> namespaces (snd (clearIndex (js ''alice'') steady_world)) (js ''alice'') = Map.empty
   \<and> events (snd (clearIndex (js ''alice'') steady_world)) = [DeleteAll (js ''alice'')]
   \<and> namespaces (snd (clearIndex (js ''alice'') steady_world)) (js ''bob'')
       = namespaces steady_world (js ''bob'')
   \<and> fst (deleteUserIndex (js ''alice'')
            (steady_world\<lparr>pinecone_reply := always (Fails (Thrown (js ''timeout'')))\<rparr>))
       = Inl (Thrown (js ''timeout''))"
proof -
  let ?bad = "steady_world\<lparr>pinecone_reply := always (Fails (Thrown (js ''timeout'')))\<rparr>"
  have ok: "\<forall>e. fst (clearIndex (js ''alice'') steady_world) \<noteq> Inl e"
    by (simp add: clearIndex_eq steady_world_def always_def)
  have bad: "fst (clearIndex (js ''alice'') ?bad) = Inl (Thrown (js ''timeout''))"
    by (simp add: clearIndex_eq steady_world_def always_def)
  have ne: "js ''bob'' \<noteq> js ''alice''" by (simp add: js_def)
  have m: "js ''Documents cleared successfully for user '' @ js ''alice''
           = js ''Documents cleared successfully for user alice''"
     "js ''Deleted all documents for user '' @ js ''alice''
           = js ''Deleted all documents for user alice''"
    by (simp_all add: js_def)
  have ev: "events steady_world = []" by (simp add: steady_world_def)
  note t = deleteUserIndex_is_clearIndex[of "js ''alice''" steady_world]
  note t' = deleteUserIndex_is_clearIndex[of "js ''alice''" ?bad]
  from t' bad have "fst (deleteUserIndex (js ''alice'') ?bad) = Inl (Thrown (js ''timeout''))"
    by blast
  moreover from t ok ne have
    "snd (deleteUserIndex (js ''alice'') steady_world) = snd (clearIndex (js ''alice'') steady_world)"
    "fst (clearIndex (js ''alice'') steady_world) =
       Inr \<lparr>success = True, message = js ''Documents cleared successfully for user '' @ js ''alice''\<rparr>"
    "fst (deleteUserIndex (js ''alice'') steady_world) =
       Inr \<lparr>success = True, message = js ''Deleted all documents for user '' @ js ''alice''\<rparr>"
    "namespaces (snd (clearIndex (js ''alice'') steady_world)) (js ''alice'') = Map.empty"
    "events (snd (clearIndex (js ''alice'') steady_world)) = events steady_world @ [DeleteAll (js ''alice'')]"
    "namespaces (snd (clearIndex (js ''alice'') steady_world)) (js ''bob'')
       = namespaces steady_world (js ''bob'')"
    by blast+
  ultimately show ?thesis by (simp add: m ev)
qed

section \<open>waitForIndex\<close>

lemma polled_Suc: "[DescribeIndex INDEX_NAME, Sleep 2000] @ polled k = polled (Suc k)"
  by (simp add: polled_def)

lemma waitForIndex_loop_not_ready:
  "i < n \<Longrightarrow> \<not> ready_reply (pinecone_reply w (pinecone_calls w)) \<Longrightarrow>
   waitForIndex_loop n i w =
     waitForIndex_loop n (Suc i)
       (w\<lparr>pinecone_calls := pinecone_calls w + 1,
          events := events w @ [DescribeIndex INDEX_NAME, Sleep 2000]\<rparr>)"
  by (subst waitForIndex_loop.simps)
     (simp add: describeIndex_eq sleep_def ready_reply_def split: reply.splits)

lemma waitForIndex_loop_ready:
  "i < n \<Longrightarrow> ready_reply (pinecone_reply w (pinecone_calls w)) \<Longrightarrow>
   waitForIndex_loop n i w =
     (Inr True, w\<lparr>pinecone_calls := pinecone_calls w + 1,
                  events := events w @ [DescribeIndex INDEX_NAME]\<rparr>)"
  by (subst waitForIndex_loop.simps)
     (simp add: describeIndex_eq ready_reply_def split: reply.splits)

lemma waitForIndex_loop_done:
  "\<not> i < n \<Longrightarrow>
   waitForIndex_loop n i w =
     (Inl (Error (js ''Index '' @ INDEX_NAME @ js '' not ready after '' @ decimal n
                  @ js '' attempts'')), w)"
  by (subst waitForIndex_loop.simps) simp

lemma waitForIndex_loop_success:
  "\<forall>j<k. \<not> ready_reply (pinecone_reply w (pinecone_calls w + j)) \<Longrightarrow>
   ready_reply (pinecone_reply w (pinecone_calls w + k)) \<Longrightarrow> i + k < n \<Longrightarrow>
   waitForIndex_loop n i w =
     (Inr True, w\<lparr>pinecone_calls := pinecone_calls w + k + 1,
                  events := events w @ polled k @ [DescribeIndex INDEX_NAME]\<rparr>)"
proof (induction k arbitrary: i w)
  case 0
  then show ?case by (simp add: waitForIndex_loop_ready polled_def)
next
  case (Suc k)
  let ?w = "w\<lparr>pinecone_calls := pinecone_calls w + 1,
              events := events w @ [DescribeIndex INDEX_NAME, Sleep 2000]\<rparr>"
  from Suc.prems(1) have first: "\<not> ready_reply (pinecone_reply w (pinecone_calls w))"
    by (metis add.right_neutral zero_less_Suc)
  have "\<forall>j<k. \<not> ready_reply (pinecone_reply ?w (pinecone_calls ?w + j))"
    using Suc.prems(1) by (auto simp: less_Suc_eq_0_disj)
  moreover have "ready_reply (pinecone_reply ?w (pinecone_calls ?w + k))"
    using Suc.prems(2) by simp
  moreover have "Suc i + k < n" using Suc.prems(3) by simp
  ultimately have "waitForIndex_loop n (Suc i) ?w =
     (Inr True, ?w\<lparr>pinecone_calls := pinecone_calls ?w + k + 1,
                   events := events ?w @ polled k @ [DescribeIndex INDEX_NAME]\<rparr>)"
    by (rule Suc.IH)
  moreover have "i < n" using Suc.prems(3) by simp
  ultimately show ?case
    using first by (simp add: waitForIndex_loop_not_ready polled_Suc[symmetric])
qed

lemma waitForIndex_loop_exhausted:
  "\<forall>j<k. \<not> ready_reply (pinecone_reply w (pinecone_calls w + j)) \<Longrightarrow> i + k = n \<Longrightarrow>
   waitForIndex_loop n i w =
     (Inl (Error (js ''Index '' @ INDEX_NAME @ js '' not ready after '' @ decimal n
                  @ js '' attempts'')),
      w\<lparr>pinecone_calls := pinecone_calls w + k, events := events w @ polled k\<rparr>)"
proof (induction k arbitrary: i w)
  case 0
  then show ?case by (simp add: waitForIndex_loop_done polled_def)
next
  case (Suc k)
  let ?w = "w\<lparr>pinecone_calls := pinecone_calls w + 1,
              events := events w @ [DescribeIndex INDEX_NAME, Sleep 2000]\<rparr>"
  from Suc.prems(1) have first: "\<not> ready_reply (pinecone_reply w (pinecone_calls w))"
    by (metis add.right_neutral zero_less_Suc)
  have "\<forall>j<k. \<not> ready_reply (pinecone_reply ?w (pinecone_calls ?w + j))"
    using Suc.prems(1) by (auto simp: less_Suc_eq_0_disj)
  moreover have "Suc i + k = n" using Suc.prems(2) by simp
  ultimately have "waitForIndex_loop n (Suc i) ?w =
     (Inl (Error (js ''Index '' @ INDEX_NAME @ js '' not ready after '' @ decimal n
                  @ js '' attempts'')),
      ?w\<lparr>pinecone_calls := pinecone_calls ?w + k, events := events ?w @ polled k\<rparr>)"
    by (rule Suc.IH)
  moreover have "i < n" using Suc.prems(2) by simp
  ultimately show ?case
    using first by (simp add: waitForIndex_loop_not_ready polled_Suc[symmetric])
qed

text \<open>
  C6. \<open>waitForIndex\<close> without argument is \<open>waitForIndex\<close> with \<open>maxAttempts = 10\<close>. With
  \<open>maxAttempts = n\<close>: if attempt \<open>k < n\<close> is the first whose \<^verbatim>\<open>describeIndex\<close> returns with the
  ready flag set, the result is \<^verbatim>\<open>true\<close> after exactly \<open>k + 1\<close> calls, each of the first \<open>k\<close>
  followed by a sleep of 2000 ms and none after the last; if none of the \<open>n\<close> attempts
  observes the flag, exactly \<open>n\<close> calls are made, each followed by a sleep of 2000 ms, and
  the error \<^verbatim>\<open>Index rag-docs-llama not ready after <n> attempts\<close> is thrown.
\<close>

theorem waitForIndex_polling:
  "waitForIndex None w = waitForIndex (Some 10) w
   \<and> (\<forall>k<n. (\<forall>j<k. \<not> ready_reply (pinecone_reply w (pinecone_calls w + j)))
          \<and> ready_reply (pinecone_reply w (pinecone_calls w + k)) \<longrightarrow>
        waitForIndex (Some n) w =
          (Inr True,
           w\<lparr>pinecone_calls := pinecone_calls w + k + 1,
             events := events w
               @ concat (replicate k [DescribeIndex (js ''rag-docs-llama''), Sleep 2000])
               @ [DescribeIndex (js ''rag-docs-llama'')]\<rparr>))
   \<and> ((\<forall>j<n. \<not> ready_reply (pinecone_reply w (pinecone_calls w + j))) \<longrightarrow>
        waitForIndex (Some n) w =
          (Inl (Error (js ''Index rag-docs-llama not ready after '' @ decimal n @ js '' attempts'')),
           w\<lparr>pinecone_calls := pinecone_calls w + n,
             events := events w
               @ concat (replicate n [DescribeIndex (js ''rag-docs-llama''), Sleep 2000])\<rparr>))"
proof -
  have msg: "js ''Index '' @ INDEX_NAME @ js '' not ready after '' @ decimal n @ js '' attempts''
             = js ''Index rag-docs-llama not ready after '' @ decimal n @ js '' attempts''"
    by (simp add: INDEX_NAME_def js_def)
  have 1: "waitForIndex None w = waitForIndex (Some 10) w"
    by (simp add: waitForIndex_def)
  have 2: "waitForIndex (Some n) w =
          (Inr True,
           w\<lparr>pinecone_calls := pinecone_calls w + k + 1,
             events := events w
               @ concat (replicate k [DescribeIndex (js ''rag-docs-llama''), Sleep 2000])
               @ [DescribeIndex (js ''rag-docs-llama'')]\<rparr>)"
    if "k < n" "\<forall>j<k. \<not> ready_reply (pinecone_reply w (pinecone_calls w + j))"
       "ready_reply (pinecone_reply w (pinecone_calls w + k))" for k
    using waitForIndex_loop_success[OF that(2,3), of 0 n] that(1)
    by (simp add: waitForIndex_def polled_def INDEX_NAME_def)
  have 3: "waitForIndex (Some n) w =
          (Inl (Error (js ''Index rag-docs-llama not ready after '' @ decimal n @ js '' attempts'')),
           w\<lparr>pinecone_calls := pinecone_calls w + n,
             events := events w
               @ concat (replicate n [DescribeIndex (js ''rag-docs-llama''), Sleep 2000])\<rparr>)"
    if "\<forall>j<n. \<not> ready_reply (pinecone_reply w (pinecone_calls w + j))"
    using waitForIndex_loop_exhausted[OF that, of 0 n]
    by (simp add: waitForIndex_def polled_def msg) (simp add: INDEX_NAME_def)
  from 1 2 3 show ?thesis by blast
qed

theorem waitForIndex_polling_witness:
  "waitForIndex None (steady_world\<lparr>pinecone_reply := ready_after 2\<rparr>) =
     (Inr True,
      steady_world\<lparr>pinecone_reply := ready_after 2, pinecone_calls := 3,
        events := [DescribeIndex (js ''rag-docs-llama''), Sleep 2000,
                   DescribeIndex (js ''rag-docs-llama''), Sleep 2000,
                   DescribeIndex (js ''rag-docs-llama'')]\<rparr>)
   \<and> waitForIndex (Some 2) (steady_world\<lparr>pinecone_reply := always (Fails (Thrown (js ''not found'')))\<rparr>) =
     (Inl (Error (js ''Index rag-docs-llama not ready after 2 attempts'')),
      steady_world\<lparr>pinecone_reply := always (Fails (Thrown (js ''not found''))), pinecone_calls := 2,
        events := [DescribeIndex (js ''rag-docs-llama''), Sleep 2000,
                   DescribeIndex (js ''rag-docs-llama''), Sleep 2000]\<rparr>)"
proof -
  let ?w = "steady_world\<lparr>pinecone_reply := ready_after 2\<rparr>"
  let ?v = "steady_world\<lparr>pinecone_reply := always (Fails (Thrown (js ''not found'')))\<rparr>"
  have z: "pinecone_calls steady_world = 0" "events steady_world = []"
    by (simp_all add: steady_world_def)
  have h1: "\<forall>j<2. \<not> ready_reply (pinecone_reply ?w (pinecone_calls ?w + j))"
    by (simp add: z ready_reply_def ready_after_def status_ready_def)
  have h2: "ready_reply (pinecone_reply ?w (pinecone_calls ?w + 2))"
    by (simp add: z ready_reply_def ready_after_def status_ready_def)
  have h3: "\<forall>j<2. \<not> ready_reply (pinecone_reply ?v (pinecone_calls ?v + j))"
    by (simp add: ready_reply_def always_def)
  have d2: "decimal 2 = js ''2''" by code_simp
  have m: "js ''Index rag-docs-llama not ready after '' @ js ''2'' @ js '' attempts''
           = js ''Index rag-docs-llama not ready after 2 attempts''"
    by (simp add: js_def)
  note t = waitForIndex_polling[of ?w 10]
  note t' = waitForIndex_polling[of ?v 2]
  from t have c1: "waitForIndex None ?w = waitForIndex (Some 10) ?w"
    by (rule conjunct1)
  from t have c2: "\<forall>k<10. (\<forall>j<k. \<not> ready_reply (pinecone_reply ?w (pinecone_calls ?w + j)))
          \<and> ready_reply (pinecone_reply ?w (pinecone_calls ?w + k)) \<longrightarrow>
        waitForIndex (Some 10) ?w =
          (Inr True,
           ?w\<lparr>pinecone_calls := pinecone_calls ?w + k + 1,
             events := events ?w
               @ concat (replicate k [DescribeIndex (js ''rag-docs-llama''), Sleep 2000])
               @ [DescribeIndex (js ''rag-docs-llama'')]\<rparr>)"
    by (rule conjunct2[THEN conjunct1])
  have "(2::nat) < 10" by simp
  with c2 h1 h2 c1 have a: "waitForIndex None ?w =
          (Inr True,
           ?w\<lparr>pinecone_calls := pinecone_calls ?w + 2 + 1,
             events := events ?w
               @ concat (replicate 2 [DescribeIndex (js ''rag-docs-llama''), Sleep 2000])
               @ [DescribeIndex (js ''rag-docs-llama'')]\<rparr>)"
    by presburger
  from t' h3 have b: "waitForIndex (Some 2) ?v =
          (Inl (Error (js ''Index rag-docs-llama not ready after '' @ decimal 2 @ js '' attempts'')),
           ?v\<lparr>pinecone_calls := pinecone_calls ?v + 2,
             events := events ?v
               @ concat (replicate 2 [DescribeIndex (js ''rag-docs-llama''), Sleep 2000])\<rparr>)"
    by blast
  have rep2: "\<And>x::event list. replicate 2 x = [x, x]"
    by (simp add: numeral_2_eq_2)
  from a b show ?thesis
    by (simp add: z d2 m rep2)
qed

section \<open>Record ids\<close>

lemma small_cases: "n < 10 \<Longrightarrow> n \<in> {0, 1, 2, 3, 4, 5, 6, 7, 8, 9 :: nat}"
  by auto

lemma digit_unit: "n < 10 \<Longrightarrow> is_digit (0x30 + of_nat n)"
  by (drule small_cases) (auto simp: is_digit_def)

lemma digit_unit_value: "n < 10 \<Longrightarrow> unat (0x30 + of_nat n :: code_unit) - 48 = n"
  by (drule small_cases) auto

lemma decimal_digits: "list_all is_digit (decimal n)"
proof (induction n rule: decimal.induct)
  case (1 n)
  show ?case
  proof (cases "n < 10")
    case True
    then show ?thesis by (subst decimal.simps) (simp add: digit_unit)
  next
    case False
    with 1 show ?thesis by (subst decimal.simps) (simp add: digit_unit)
  qed
qed

lemma undecimal_snoc: "undecimal (ds @ [c]) = 10 * undecimal ds + (unat c - 48)"
  by (simp add: undecimal_def)

lemma undecimal_decimal: "undecimal (decimal n) = n"
proof (induction n rule: decimal.induct)
  case (1 n)
  show ?case
  proof (cases "n < 10")
    case True
    then show ?thesis
      by (subst decimal.simps) (simp add: undecimal_def digit_unit_value)
  next
    case False
    with 1 have "undecimal (decimal (n div 10)) = n div 10" by simp
    with False show ?thesis
      by (subst decimal.simps) (simp add: undecimal_snoc digit_unit_value)
  qed
qed

lemma decimal_inj: "decimal m = decimal n \<Longrightarrow> m = n"
  by (metis undecimal_decimal)

lemma takeWhile_digits:
  "list_all is_digit ds \<Longrightarrow> \<not> is_digit c \<Longrightarrow> takeWhile is_digit (ds @ c # rest) = ds"
  by (simp add: list_all_iff)

lemma rev_chunk_id:
  "rev (chunk_id now i) = rev (decimal i) @ 0x5F # rev (js ''doc_'' @ decimal now @ js ''_chunk'')"
  by (simp add: chunk_id_def js_def)

lemma chunk_id_index: "chunk_id now i = chunk_id now' j \<Longrightarrow> i = j"
proof -
  assume eq: "chunk_id now i = chunk_id now' j"
  have nd: "\<not> is_digit 0x5F" by (simp add: is_digit_def)
  have d: "\<And>k. list_all is_digit (rev (decimal k))"
    using decimal_digits by (simp add: list_all_iff)
  have "rev (decimal i) = takeWhile is_digit (rev (chunk_id now i))"
    unfolding rev_chunk_id by (rule takeWhile_digits[OF d nd, symmetric])
  also have "\<dots> = takeWhile is_digit (rev (chunk_id now' j))" by (simp add: eq)
  also have "\<dots> = rev (decimal j)"
    unfolding rev_chunk_id by (rule takeWhile_digits[OF d nd])
  finally show ?thesis by (simp add: decimal_inj)
qed

lemma map_of_set_property:
  "map_of (set_property k v props) k' = (if k' = k then Some v else map_of props k')"
  by (induction props) auto

lemma chunk_metadata_text:
  "map_of (chunk_metadata userId meta chunk i n stamp) (js ''text'') = Some (String chunk)"
  by (simp add: chunk_metadata_def map_of_set_property) (simp add: js_def)

section \<open>The rounds of addDocument\<close>

lemma upsert_eq:
  "upsert ns r w =
     (case pinecone_reply w (pinecone_calls w) of
        Fails e \<Rightarrow>
          (Inl e, w\<lparr>pinecone_calls := pinecone_calls w + 1, events := events w @ [Upsert ns r]\<rparr>)
      | Succeeds d \<Rightarrow>
          (Inr (), w\<lparr>pinecone_calls := pinecone_calls w + 1, events := events w @ [Upsert ns r],
                     namespaces := (namespaces w)(ns := (namespaces w ns)(id' r \<mapsto> r))\<rparr>))"
  by (simp add: upsert_def pinecone_call_def split: reply.splits)

lemma getEmbedding_cases:
  obtains x where
    "getEmbedding t w =
       (x, w\<lparr>fetches := fetches w + 1,
             events := events w @ [Fetch (OLLAMA_API @ js ''/api/embeddings'')
               (Object [(js ''model'', String MODEL_EMBEDDING), (js ''prompt'', String t)])]\<rparr>)"
  using getEmbedding_world[of t w] by (cases "getEmbedding t w") simp

lemma loop_embedding_fails:
  assumes "i < length cs" "fst (getEmbedding (cs ! i) w) = Inl e"
  shows "addDocument_loop u m cs i res w = (Inl e, snd (getEmbedding (cs ! i) w))"
proof -
  obtain x where g: "getEmbedding (cs ! i) w =
       (x, w\<lparr>fetches := fetches w + 1,
             events := events w @ [Fetch (OLLAMA_API @ js ''/api/embeddings'')
               (Object [(js ''model'', String MODEL_EMBEDDING), (js ''prompt'', String (cs ! i))])]\<rparr>)"
    by (rule getEmbedding_cases)
  with assms(2) have "x = Inl e" by simp
  with assms(1) g show ?thesis
    by (subst addDocument_loop.simps) (simp add: Let_def)
qed

lemma loop_upsert_fails:
  assumes "i < length cs" "fst (getEmbedding (cs ! i) w) = Inr emb"
    "pinecone_reply w (pinecone_calls w) = Fails e"
  shows "addDocument_loop u m cs i res w =
           (Inl e, round_world u (cs ! i) (round_record u m cs i emb w) w)"
proof -
  obtain x where g: "getEmbedding (cs ! i) w =
       (x, w\<lparr>fetches := fetches w + 1,
             events := events w @ [Fetch (OLLAMA_API @ js ''/api/embeddings'')
               (Object [(js ''model'', String MODEL_EMBEDDING), (js ''prompt'', String (cs ! i))])]\<rparr>)"
    by (rule getEmbedding_cases)
  with assms(2) have "x = Inr emb" by simp
  with assms(1,3) g show ?thesis
    by (subst addDocument_loop.simps)
       (simp add: Let_def date_now_def upsert_eq round_world_def round_record_def)
qed

lemma loop_round:
  assumes "i < length cs" "fst (getEmbedding (cs ! i) w) = Inr emb"
    "pinecone_reply w (pinecone_calls w) = Succeeds d"
  shows "addDocument_loop u m cs i res w =
           addDocument_loop u m cs (i + 1) (res @ [(chunk_id (clock w (clock_reads w)) i, cs ! i)])
             ((round_world u (cs ! i) (round_record u m cs i emb w) w)
                \<lparr>namespaces := (namespaces w)(u := (namespaces w u)
                     (chunk_id (clock w (clock_reads w)) i \<mapsto> round_record u m cs i emb w))\<rparr>)"
proof -
  obtain x where g: "getEmbedding (cs ! i) w =
       (x, w\<lparr>fetches := fetches w + 1,
             events := events w @ [Fetch (OLLAMA_API @ js ''/api/embeddings'')
               (Object [(js ''model'', String MODEL_EMBEDDING), (js ''prompt'', String (cs ! i))])]\<rparr>)"
    by (rule getEmbedding_cases)
  with assms(2) have "x = Inr emb" by simp
  with assms(1,3) g show ?thesis
    by (subst addDocument_loop.simps)
       (simp add: Let_def date_now_def upsert_eq round_world_def round_record_def)
qed

lemma loop_done:
  "\<not> i < length cs \<Longrightarrow> addDocument_loop u m cs i res w = (Inr res, w)"
  by (subst addDocument_loop.simps) simp

lemma getEmbedding_fst_cong:
  "fetch_reply v (fetches v) = fetch_reply w (fetches w) \<Longrightarrow>
   fst (getEmbedding t v) = fst (getEmbedding t w)"
  by (simp add: getEmbedding_def fetch_def split: fetch_result.splits sum.splits)

lemma loop_keeps_earlier:
  "addDocument_loop u m cs i res w = (x, w') \<Longrightarrow> j < i \<Longrightarrow>
   namespaces w u (chunk_id now j) = Some r \<Longrightarrow>
   namespaces w' u (chunk_id now j) = Some r"
proof (induction "length cs - i" arbitrary: i res w)
  case 0
  then have "\<not> i < length cs" by simp
  with 0 show ?case by (simp add: loop_done)
next
  case (Suc n)
  then have i: "i < length cs" by simp
  show ?case
  proof (cases "fst (getEmbedding (cs ! i) w)")
    case (Inl e)
    from Suc.prems(1) have "w' = snd (getEmbedding (cs ! i) w)"
      by (simp add: loop_embedding_fails[OF i Inl])
    with Suc.prems(3) show ?thesis by (simp add: getEmbedding_world)
  next
    case (Inr emb)
    show ?thesis
    proof (cases "pinecone_reply w (pinecone_calls w)")
      case (Fails e)
      from Suc.prems(1) have "w' = round_world u (cs ! i) (round_record u m cs i emb w) w"
        by (simp add: loop_upsert_fails[OF i Inr Fails])
      with Suc.prems(3) show ?thesis by (simp add: round_world_def)
    next
      case (Succeeds d)
      let ?id = "chunk_id (clock w (clock_reads w)) i"
      let ?w = "(round_world u (cs ! i) (round_record u m cs i emb w) w)
                  \<lparr>namespaces := (namespaces w)(u := (namespaces w u)
                       (?id \<mapsto> round_record u m cs i emb w))\<rparr>"
      from Suc.prems(1)
      have run: "addDocument_loop u m cs (i + 1) (res @ [(?id, cs ! i)]) ?w = (x, w')"
        by (simp add: loop_round[OF i Inr Succeeds])
      have "chunk_id now j \<noteq> ?id"
        using chunk_id_index[of now j "clock w (clock_reads w)" i] Suc.prems(2) by auto
      with Suc.prems(3) have kept: "namespaces ?w u (chunk_id now j) = Some r"
        by (simp add: round_world_def)
      have "n = length cs - (i + 1)" using Suc.hyps(2) by simp
      from Suc.hyps(1)[OF this run _ kept] Suc.prems(2) show ?thesis by simp
    qed
  qed
qed

lemma loop_failure:
  "addDocument_loop u m cs i res w = (Inl e, w') \<Longrightarrow>
   \<exists>k. i \<le> k \<and> k < length cs \<and> fetches w' = fetches w + (k - i) + 1
      \<and> (\<forall>j. i \<le> j \<and> j < k \<longrightarrow>
            (\<exists>now r. namespaces w' u (chunk_id now j) = Some r \<and> id' r = chunk_id now j
               \<and> map_of (metadata r) (js ''text'') = Some (String (cs ! j))))
      \<and> (fst (getEmbedding (cs ! k) (w\<lparr>fetches := fetches w + (k - i)\<rparr>)) = Inl e
          \<or> pinecone_reply w (pinecone_calls w + (k - i)) = Fails e)"
proof (induction "length cs - i" arbitrary: i res w)
  case 0
  then have "\<not> i < length cs" by simp
  with 0 show ?case by (simp add: loop_done)
next
  case (Suc n)
  then have i: "i < length cs" by simp
  show ?case
  proof (cases "fst (getEmbedding (cs ! i) w)")
    case (Inl e0)
    from Suc.prems have w': "w' = snd (getEmbedding (cs ! i) w)" and e: "e0 = e"
      by (simp_all add: loop_embedding_fails[OF i Inl])
    have "fst (getEmbedding (cs ! i) (w\<lparr>fetches := fetches w + (i - i)\<rparr>)) = Inl e"
      using Inl e by simp
    with i w' show ?thesis
      by (intro exI[of _ i]) (auto simp: getEmbedding_world)
  next
    case (Inr emb)
    show ?thesis
    proof (cases "pinecone_reply w (pinecone_calls w)")
      case (Fails e0)
      from Suc.prems have w': "w' = round_world u (cs ! i) (round_record u m cs i emb w) w"
        and e: "e0 = e"
        by (simp_all add: loop_upsert_fails[OF i Inr Fails])
      with i Fails show ?thesis
        by (intro exI[of _ i]) (auto simp: round_world_def)
    next
      case (Succeeds d)
      let ?id = "chunk_id (clock w (clock_reads w)) i"
      let ?r = "round_record u m cs i emb w"
      let ?w = "(round_world u (cs ! i) ?r w)
                  \<lparr>namespaces := (namespaces w)(u := (namespaces w u)(?id \<mapsto> ?r))\<rparr>"
      from Suc.prems
      have run: "addDocument_loop u m cs (i + 1) (res @ [(?id, cs ! i)]) ?w = (Inl e, w')"
        by (simp add: loop_round[OF i Inr Succeeds])
      have n: "n = length cs - (i + 1)" using Suc.hyps(2) by simp
      from Suc.hyps(1)[OF n run] obtain k where
        k: "i + 1 \<le> k" "k < length cs" and
        f: "fetches w' = fetches ?w + (k - (i + 1)) + 1" and
        st: "\<forall>j. i + 1 \<le> j \<and> j < k \<longrightarrow>
            (\<exists>now r. namespaces w' u (chunk_id now j) = Some r \<and> id' r = chunk_id now j
               \<and> map_of (metadata r) (js ''text'') = Some (String (cs ! j)))" and
        er: "fst (getEmbedding (cs ! k) (?w\<lparr>fetches := fetches ?w + (k - (i + 1))\<rparr>)) = Inl e
             \<or> pinecone_reply ?w (pinecone_calls ?w + (k - (i + 1))) = Fails e"
        by blast
      have here: "namespaces ?w u ?id = Some ?r" by (simp add: round_world_def)
      from loop_keeps_earlier[OF run _ here]
      have kept: "namespaces w' u ?id = Some ?r" by simp
      have rec: "id' ?r = ?id" "map_of (metadata ?r) (js ''text'') = Some (String (cs ! i))"
        by (simp_all add: round_record_def chunk_metadata_text)
      have fw: "fetches ?w = fetches w + 1" "pinecone_calls ?w = pinecone_calls w + 1"
        "pinecone_reply ?w = pinecone_reply w" "fetch_reply ?w = fetch_reply w"
        by (simp_all add: round_world_def)
      have idx: "Suc (k - Suc i) = k - i" using k by simp
      have 1: "fetches w' = fetches w + (k - i) + 1" using f k by (simp add: fw)
      have 2: "\<forall>j. i \<le> j \<and> j < k \<longrightarrow>
            (\<exists>now r. namespaces w' u (chunk_id now j) = Some r \<and> id' r = chunk_id now j
               \<and> map_of (metadata r) (js ''text'') = Some (String (cs ! j)))"
      proof (intro allI impI)
        fix j assume j: "i \<le> j \<and> j < k"
        show "\<exists>now r. namespaces w' u (chunk_id now j) = Some r \<and> id' r = chunk_id now j
               \<and> map_of (metadata r) (js ''text'') = Some (String (cs ! j))"
        proof (cases "j = i")
          case True
          with kept rec show ?thesis by blast
        next
          case False
          with j have "i + 1 \<le> j \<and> j < k" by simp
          with st show ?thesis by blast
        qed
      qed
      have cong: "fst (getEmbedding (cs ! k) (?w\<lparr>fetches := fetches ?w + (k - (i + 1))\<rparr>))
                  = fst (getEmbedding (cs ! k) (w\<lparr>fetches := fetches w + (k - i)\<rparr>))"
      proof (rule getEmbedding_fst_cong)
        have a: "fetches w + 1 + (k - (i + 1)) = fetches w + (k - i)" using k by simp
        show "fetch_reply (?w\<lparr>fetches := fetches ?w + (k - (i + 1))\<rparr>)
                (fetches (?w\<lparr>fetches := fetches ?w + (k - (i + 1))\<rparr>))
              = fetch_reply (w\<lparr>fetches := fetches w + (k - i)\<rparr>)
                  (fetches (w\<lparr>fetches := fetches w + (k - i)\<rparr>))"
        proof -
          have f1: "\<And>X. fetches (?w\<lparr>fetches := X\<rparr>) = X"
            and f2: "\<And>X. fetch_reply (?w\<lparr>fetches := X\<rparr>) = fetch_reply w"
            and f3: "fetches ?w = fetches w + 1"
            and g1: "\<And>X. fetches (w\<lparr>fetches := X\<rparr>) = X"
            and g2: "\<And>X. fetch_reply (w\<lparr>fetches := X\<rparr>) = fetch_reply w"
            by (simp_all add: round_world_def)
          show ?thesis by (simp only: f1 f2 f3 g1 g2 a)
        qed
      qed
      have 3: "fst (getEmbedding (cs ! k) (w\<lparr>fetches := fetches w + (k - i)\<rparr>)) = Inl e
          \<or> pinecone_reply w (pinecone_calls w + (k - i)) = Fails e"
      proof -
        have a: "pinecone_calls w + 1 + (k - (i + 1)) = pinecone_calls w + (k - i)"
          using k by simp
        have "pinecone_reply ?w (pinecone_calls ?w + (k - (i + 1)))
              = pinecone_reply w (pinecone_calls w + (k - i))"
        proof -
          have f1: "pinecone_calls ?w = pinecone_calls w + 1"
            and f2: "pinecone_reply ?w = pinecone_reply w"
            by (simp_all add: round_world_def)
          show ?thesis by (simp only: f1 f2 a)
        qed
        with er cong show ?thesis by simp
      qed
      from k 1 2 3 show ?thesis
        by (intro exI[of _ k]) simp
    qed
  qed
qed

lemma addDocuments_loop_abort:
  "addDocuments_loop u m ds1 res w = (Inr rs, w1) \<Longrightarrow> addDocument u d m w1 = (Inl e, w2) \<Longrightarrow>
   addDocuments_loop u m (ds1 @ d # ds2) res w = (Inl e, w2)"
proof (induction ds1 arbitrary: res w)
  case Nil
  then show ?case by simp
next
  case (Cons a ds1)
  then show ?case
    by (cases "addDocument u a m w") (auto split: sum.splits)
qed

lemma shifted_replies:
  assumes "fetch_reply w2 = fetch_reply w" "fetches w2 = fetches w + 1"
    "pinecone_reply w2 = pinecone_reply w" "pinecone_calls w2 = pinecone_calls w + 1"
    and ij: "i < j"
  shows "fst (getEmbedding t (w2\<lparr>fetches := fetches w2 + (j - (i + 1))\<rparr>))
         = fst (getEmbedding t (w\<lparr>fetches := fetches w + (j - i)\<rparr>))"
    and "pinecone_reply w2 (pinecone_calls w2 + (j - (i + 1)))
         = pinecone_reply w (pinecone_calls w + (j - i))"
proof -
  have a: "\<And>n. n + 1 + (j - (i + 1)) = n + (j - i)" using ij by simp
  have sel: "\<And>v X. fetch_reply (v\<lparr>fetches := X\<rparr>) = fetch_reply v"
    "\<And>v X. fetches (v\<lparr>fetches := X\<rparr>) = X"
    by simp_all
  show "fst (getEmbedding t (w2\<lparr>fetches := fetches w2 + (j - (i + 1))\<rparr>))
         = fst (getEmbedding t (w\<lparr>fetches := fetches w + (j - i)\<rparr>))"
    by (rule getEmbedding_fst_cong) (simp only: sel assms(1,2) a)
  show "pinecone_reply w2 (pinecone_calls w2 + (j - (i + 1)))
         = pinecone_reply w (pinecone_calls w + (j - i))"
    by (simp only: assms(3,4) a)
qed

lemma getEmbedding_at_start:
  "fst (getEmbedding t (w\<lparr>fetches := fetches w + (i - i)\<rparr>)) = fst (getEmbedding t w)"
  by (rule getEmbedding_fst_cong) simp

lemma loop_propagates:
  assumes "i \<le> k" "k < length cs"
    and "\<forall>j. i \<le> j \<and> j < k \<longrightarrow>
           (\<exists>v. fst (getEmbedding (cs ! j) (w\<lparr>fetches := fetches w + (j - i)\<rparr>)) = Inr v)
         \<and> (\<exists>d. pinecone_reply w (pinecone_calls w + (j - i)) = Succeeds d)"
    and "fst (getEmbedding (cs ! k) (w\<lparr>fetches := fetches w + (k - i)\<rparr>)) = Inl e
         \<or> (\<exists>v. fst (getEmbedding (cs ! k) (w\<lparr>fetches := fetches w + (k - i)\<rparr>)) = Inr v)
           \<and> pinecone_reply w (pinecone_calls w + (k - i)) = Fails e"
  shows "\<exists>w'. addDocument_loop u m cs i res w = (Inl e, w')
            \<and> fetches w' = fetches w + (k - i) + 1"
  using assms
proof (induction "k - i" arbitrary: i res w)
  case 0
  then have ki: "k = i" by simp
  from 0(3) ki have i: "i < length cs" by simp
  from 0(5) have bad: "fst (getEmbedding (cs ! i) w) = Inl e
       \<or> (\<exists>v. fst (getEmbedding (cs ! i) w) = Inr v)
         \<and> pinecone_reply w (pinecone_calls w) = Fails e"
    unfolding ki by simp
  show ?case
  proof (cases "fst (getEmbedding (cs ! i) w)")
    case (Inl e0)
    with bad have ee: "fst (getEmbedding (cs ! i) w) = Inl e" by auto
    show ?thesis
      unfolding ki
      by (simp add: loop_embedding_fails[OF i ee] getEmbedding_world)
  next
    case (Inr v)
    with bad have up: "pinecone_reply w (pinecone_calls w) = Fails e" by auto
    show ?thesis
      unfolding ki
      by (simp add: loop_upsert_fails[OF i Inr up] round_world_def)
  qed
next
  case (Suc n)
  then have ik: "i < k" and i: "i < length cs" by simp_all
  from Suc.prems(3) ik obtain v d where
    v: "fst (getEmbedding (cs ! i) (w\<lparr>fetches := fetches w + (i - i)\<rparr>)) = Inr v"
    and d: "pinecone_reply w (pinecone_calls w + (i - i)) = Succeeds d"
    by blast
  from v have v': "fst (getEmbedding (cs ! i) w) = Inr v"
    by (simp only: getEmbedding_at_start)
  from d have d': "pinecone_reply w (pinecone_calls w) = Succeeds d" by simp
  let ?id = "chunk_id (clock w (clock_reads w)) i"
  let ?r = "round_record u m cs i v w"
  define w2 where "w2 = (round_world u (cs ! i) ?r w)
                  \<lparr>namespaces := (namespaces w)(u := (namespaces w u)(?id \<mapsto> ?r))\<rparr>"
  have step: "addDocument_loop u m cs i res w
              = addDocument_loop u m cs (i + 1) (res @ [(?id, cs ! i)]) w2"
    unfolding w2_def by (rule loop_round[OF i v' d'])
  have fw: "fetch_reply w2 = fetch_reply w" "fetches w2 = fetches w + 1"
    "pinecone_reply w2 = pinecone_reply w" "pinecone_calls w2 = pinecone_calls w + 1"
    by (simp_all add: w2_def round_world_def)
  have n: "n = k - (i + 1)" using Suc.hyps(2) by simp
  have i1: "i + 1 \<le> k" using ik by simp
  have ok2: "\<forall>j. i + 1 \<le> j \<and> j < k \<longrightarrow>
           (\<exists>v. fst (getEmbedding (cs ! j) (w2\<lparr>fetches := fetches w2 + (j - (i + 1))\<rparr>)) = Inr v)
         \<and> (\<exists>d. pinecone_reply w2 (pinecone_calls w2 + (j - (i + 1))) = Succeeds d)"
  proof (intro allI impI)
    fix j assume j: "i + 1 \<le> j \<and> j < k"
    then have ij: "i < j" by simp
    from j Suc.prems(3) have
      "(\<exists>v. fst (getEmbedding (cs ! j) (w\<lparr>fetches := fetches w + (j - i)\<rparr>)) = Inr v)
       \<and> (\<exists>d. pinecone_reply w (pinecone_calls w + (j - i)) = Succeeds d)"
      by simp
    then show "(\<exists>v. fst (getEmbedding (cs ! j) (w2\<lparr>fetches := fetches w2 + (j - (i + 1))\<rparr>)) = Inr v)
         \<and> (\<exists>d. pinecone_reply w2 (pinecone_calls w2 + (j - (i + 1))) = Succeeds d)"
      by (simp only: shifted_replies[OF fw ij])
  qed
  have bad2: "fst (getEmbedding (cs ! k) (w2\<lparr>fetches := fetches w2 + (k - (i + 1))\<rparr>)) = Inl e
         \<or> (\<exists>v. fst (getEmbedding (cs ! k) (w2\<lparr>fetches := fetches w2 + (k - (i + 1))\<rparr>)) = Inr v)
           \<and> pinecone_reply w2 (pinecone_calls w2 + (k - (i + 1))) = Fails e"
    using Suc.prems(4) by (simp only: shifted_replies[OF fw ik])
  from Suc.hyps(1)[OF n i1 Suc.prems(2) ok2 bad2, of "res @ [(?id, cs ! i)]"]
  obtain w' where
    run: "addDocument_loop u m cs (i + 1) (res @ [(?id, cs ! i)]) w2 = (Inl e, w')"
    and f: "fetches w' = fetches w2 + (k - (i + 1)) + 1"
    by blast
  have "fetches w' = fetches w + (k - i) + 1" using f fw(2) ik by simp
  with run step show ?case by simp
qed

text \<open>
  C9. Let the document have the chunks \<open>0, \<dots>\<close> and let \<open>k\<close> be one of them. If the rounds of
  the chunks before \<open>k\<close> go well (the embedding service answers with an embedding and the
  \<^verbatim>\<open>upsert\<close> returns) and the round of chunk \<open>k\<close> does not (\<open>getEmbedding\<close> throws \<open>e\<close>, or
  it returns and the \<^verbatim>\<open>upsert\<close> throws \<open>e\<close>), then \<open>addDocument\<close> throws that same \<open>e\<close> to
  its caller, and for every chunk \<open>j < k\<close> the namespace of the user still holds, under an
  id \<^verbatim>\<open>doc_<time>_chunk_<j>\<close>, a record whose text is chunk \<open>j\<close>: nothing is rolled back.
  Here the reply to the \<open>j\<close>-th \<^verbatim>\<open>fetch\<close> of the call is read through \<open>getEmbedding\<close> in the
  world whose \<^verbatim>\<open>fetch\<close> counter stands at \<open>fetches w + j\<close>.

  Conversely, whenever \<open>addDocument\<close> throws, it threw in this way while processing some
  chunk \<open>k\<close>: embeddings were requested for the chunks \<open>0..k\<close> and for no other, the records
  of the chunks before \<open>k\<close> are in the namespace, and the error is the one \<open>getEmbedding\<close>
  raised for chunk \<open>k\<close> or the one its \<^verbatim>\<open>upsert\<close> raised.

  In \<open>addDocuments\<close>, when the documents \<open>ds1\<close> are ingested and the next document \<open>d\<close>
  fails, the batch throws that error in the very world \<open>d\<close> left behind, whatever documents
  \<open>ds2\<close> follow: none of them is touched.
\<close>

theorem ingestion_failure_keeps_progress:
  "(\<forall>k e. k < length (splitIntoChunks text CHUNK_SIZE)
        \<and> (\<forall>j<k. (\<exists>v. fst (getEmbedding (splitIntoChunks text CHUNK_SIZE ! j)
                               (w\<lparr>fetches := fetches w + j\<rparr>)) = Inr v)
                   \<and> (\<exists>d. pinecone_reply w (pinecone_calls w + j) = Succeeds d))
        \<and> (fst (getEmbedding (splitIntoChunks text CHUNK_SIZE ! k) (w\<lparr>fetches := fetches w + k\<rparr>))
              = Inl e
           \<or> (\<exists>v. fst (getEmbedding (splitIntoChunks text CHUNK_SIZE ! k)
                         (w\<lparr>fetches := fetches w + k\<rparr>)) = Inr v)
             \<and> pinecone_reply w (pinecone_calls w + k) = Fails e)
        \<longrightarrow> fst (addDocument userId text meta w) = Inl e
          \<and> (\<forall>j<k. \<exists>now r.
                namespaces (snd (addDocument userId text meta w)) userId (chunk_id now j) = Some r
              \<and> id' r = chunk_id now j
              \<and> map_of (metadata r) (js ''text'')
                  = Some (String (splitIntoChunks text CHUNK_SIZE ! j))))
   \<and> (\<forall>e w'. addDocument userId text meta w = (Inl e, w') \<longrightarrow>
      (\<exists>k < length (splitIntoChunks text CHUNK_SIZE).
          fetches w' = fetches w + k + 1
        \<and> (\<forall>j<k. \<exists>now r. namespaces w' userId (chunk_id now j) = Some r \<and> id' r = chunk_id now j
              \<and> map_of (metadata r) (js ''text'')
                  = Some (String (splitIntoChunks text CHUNK_SIZE ! j)))
        \<and> (fst (getEmbedding (splitIntoChunks text CHUNK_SIZE ! k) (w\<lparr>fetches := fetches w + k\<rparr>))
              = Inl e
           \<or> pinecone_reply w (pinecone_calls w + k) = Fails e)))
   \<and> (\<forall>ds1 d ds2 rs w1 e w2.
        addDocuments userId ds1 meta w = (Inr rs, w1) \<and> addDocument userId d meta w1 = (Inl e, w2)
        \<longrightarrow> addDocuments userId (ds1 @ d # ds2) meta w = (Inl e, w2))"
proof (intro conjI allI impI)
  fix k e
  let ?cs = "splitIntoChunks text CHUNK_SIZE"
  assume h: "k < length ?cs
        \<and> (\<forall>j<k. (\<exists>v. fst (getEmbedding (?cs ! j) (w\<lparr>fetches := fetches w + j\<rparr>)) = Inr v)
                   \<and> (\<exists>d. pinecone_reply w (pinecone_calls w + j) = Succeeds d))
        \<and> (fst (getEmbedding (?cs ! k) (w\<lparr>fetches := fetches w + k\<rparr>)) = Inl e
           \<or> (\<exists>v. fst (getEmbedding (?cs ! k) (w\<lparr>fetches := fetches w + k\<rparr>)) = Inr v)
             \<and> pinecone_reply w (pinecone_calls w + k) = Fails e)"
  then have k: "k < length ?cs" by simp
  from h have ok: "\<forall>j. 0 \<le> j \<and> j < k \<longrightarrow>
           (\<exists>v. fst (getEmbedding (?cs ! j) (w\<lparr>fetches := fetches w + (j - 0)\<rparr>)) = Inr v)
         \<and> (\<exists>d. pinecone_reply w (pinecone_calls w + (j - 0)) = Succeeds d)"
    by simp
  from h have bad: "fst (getEmbedding (?cs ! k) (w\<lparr>fetches := fetches w + (k - 0)\<rparr>)) = Inl e
         \<or> (\<exists>v. fst (getEmbedding (?cs ! k) (w\<lparr>fetches := fetches w + (k - 0)\<rparr>)) = Inr v)
           \<and> pinecone_reply w (pinecone_calls w + (k - 0)) = Fails e"
    by simp
  from loop_propagates[OF _ k ok bad, of userId meta "[]"] obtain w' where
    run: "addDocument_loop userId meta ?cs 0 [] w = (Inl e, w')"
    and f: "fetches w' = fetches w + k + 1"
    by auto
  from run have res: "addDocument userId text meta w = (Inl e, w')"
    by (simp add: addDocument_def Let_def)
  from loop_failure[OF run] obtain k' where
    f': "fetches w' = fetches w + (k' - 0) + 1"
    and st: "\<forall>j. 0 \<le> j \<and> j < k' \<longrightarrow>
            (\<exists>now r. namespaces w' userId (chunk_id now j) = Some r \<and> id' r = chunk_id now j
               \<and> map_of (metadata r) (js ''text'') = Some (String (?cs ! j)))"
    by blast
  from f f' have "k' = k" by simp
  with st have kept: "\<forall>j<k. \<exists>now r. namespaces w' userId (chunk_id now j) = Some r
        \<and> id' r = chunk_id now j
        \<and> map_of (metadata r) (js ''text'') = Some (String (?cs ! j))"
    by simp
  show "fst (addDocument userId text meta w) = Inl e" by (simp add: res)
  fix j assume "j < k"
  with kept show "\<exists>now r.
                namespaces (snd (addDocument userId text meta w)) userId (chunk_id now j) = Some r
              \<and> id' r = chunk_id now j
              \<and> map_of (metadata r) (js ''text'') = Some (String (?cs ! j))"
    by (simp add: res)
next
  fix e w'
  assume a: "addDocument userId text meta w = (Inl e, w')"
  let ?cs = "splitIntoChunks text CHUNK_SIZE"
  from a have "addDocument_loop userId meta ?cs 0 [] w = (Inl e, w')"
    by (auto simp: addDocument_def Let_def split: prod.splits sum.splits)
  from loop_failure[OF this] show "\<exists>k < length ?cs.
          fetches w' = fetches w + k + 1
        \<and> (\<forall>j<k. \<exists>now r. namespaces w' userId (chunk_id now j) = Some r \<and> id' r = chunk_id now j
              \<and> map_of (metadata r) (js ''text'') = Some (String (?cs ! j)))
        \<and> (fst (getEmbedding (?cs ! k) (w\<lparr>fetches := fetches w + k\<rparr>)) = Inl e
           \<or> pinecone_reply w (pinecone_calls w + k) = Fails e)"
    by auto
next
  fix ds1 d ds2 rs w1 e w2
  assume "addDocuments userId ds1 meta w = (Inr rs, w1) \<and> addDocument userId d meta w1 = (Inl e, w2)"
  then show "addDocuments userId (ds1 @ d # ds2) meta w = (Inl e, w2)"
    by (simp add: addDocuments_def addDocuments_loop_abort)
qed

section \<open>Runs on concrete worlds\<close>

lemma getEmbedding_array:
  "fetch_reply w (fetches w) = Response 200 (Inr (Object [(js ''embedding'', Array xs)])) \<Longrightarrow>
   fst (getEmbedding c w) = Inr (Array xs)"
  by (simp add: getEmbedding_def fetch_def ok_def get_property_def truthy_def isArray_def)

lemma one_chunk_document:
  assumes cs: "splitIntoChunks t CHUNK_SIZE = [c]"
    and emb: "fst (getEmbedding c w) = Inr e"
    and up: "pinecone_reply w (pinecone_calls w) = Succeeds d"
  shows "addDocument u t m w =
     (Inr \<lparr>success = True, message = js ''Added document with 1 chunks'',
            chunks = [(chunk_id (clock w (clock_reads w)) 0, c)]\<rparr>,
      (round_world u c (round_record u m [c] 0 e w) w)
        \<lparr>namespaces := (namespaces w)(u := (namespaces w u)
             (chunk_id (clock w (clock_reads w)) 0 \<mapsto> round_record u m [c] 0 e w))\<rparr>)"
proof -
  have d1: "decimal (Suc 0) = js ''1''" by code_simp
  have m: "js ''Added document with '' @ js ''1'' @ js '' chunks'' = js ''Added document with 1 chunks''"
    by (simp add: js_def)
  have i: "0 < length [c]" by simp
  have emb': "fst (getEmbedding ([c] ! 0) w) = Inr e" using emb by simp
  show ?thesis
    unfolding addDocument_def cs Let_def
    by (simp add: loop_round[OF i emb' up] loop_done d1 m)
qed

lemma one_chunk_document_namespace:
  assumes cs: "splitIntoChunks t CHUNK_SIZE = [c]"
    and emb: "fst (getEmbedding c w) = Inr e"
    and up: "pinecone_reply w (pinecone_calls w) = Succeeds d"
  shows "namespaces (snd (addDocument u t m w)) u =
           (namespaces w u)(chunk_id (clock w (clock_reads w)) 0 \<mapsto> round_record u m [c] 0 e w)"
  by (simp add: one_chunk_document[OF assms] round_world_def)

lemma one_chunk_document_upsert_fails:
  assumes cs: "splitIntoChunks t CHUNK_SIZE = [c]"
    and emb: "fst (getEmbedding c w) = Inr e"
    and up: "pinecone_reply w (pinecone_calls w) = Fails err"
  shows "addDocument u t m w = (Inl err, round_world u c (round_record u m [c] 0 e w) w)"
proof -
  have i: "0 < length [c]" by simp
  have emb': "fst (getEmbedding ([c] ! 0) w) = Inr e" using emb by simp
  show ?thesis
    unfolding addDocument_def cs Let_def
    by (simp add: loop_upsert_fails[OF i emb' up])
qed

lemma two_chunk_document_second_upsert_fails:
  assumes cs: "splitIntoChunks t CHUNK_SIZE = [c0, c1]"
    and emb0: "fetch_reply w (fetches w) = Response 200 (Inr (Object [(js ''embedding'', Array xs)]))"
    and emb1: "fetch_reply w (fetches w + 1) = Response 200 (Inr (Object [(js ''embedding'', Array ys)]))"
    and up0: "pinecone_reply w (pinecone_calls w) = Succeeds d"
    and up1: "pinecone_reply w (pinecone_calls w + 1) = Fails err"
  shows "fst (addDocument u t m w) = Inl err"
    and "fetches (snd (addDocument u t m w)) = fetches w + 2"
    and "namespaces (snd (addDocument u t m w)) u (chunk_id (clock w (clock_reads w)) 0)
         = Some (round_record u m [c0, c1] 0 (Array xs) w)"
proof -
  let ?cs = "[c0, c1]"
  let ?id = "chunk_id (clock w (clock_reads w)) 0"
  let ?r = "round_record u m ?cs 0 (Array xs) w"
  let ?w = "(round_world u c0 ?r w)\<lparr>namespaces := (namespaces w)(u := (namespaces w u)(?id \<mapsto> ?r))\<rparr>"
  have i0: "0 < length ?cs" and i1: "0 + 1 < length ?cs" by simp_all
  have e0: "fst (getEmbedding (?cs ! 0) w) = Inr (Array xs)"
    by (rule getEmbedding_array) (simp add: emb0)
  have e1: "fst (getEmbedding (?cs ! (0 + 1)) ?w) = Inr (Array ys)"
    using emb1 by (intro getEmbedding_array) (simp add: round_world_def)
  have u1: "pinecone_reply ?w (pinecone_calls ?w) = Fails err"
    using up1 by (simp add: round_world_def)
  have run: "addDocument_loop u m ?cs 0 [] w =
      (Inl err, round_world u (?cs ! (0 + 1)) (round_record u m ?cs (0 + 1) (Array ys) ?w) ?w)"
    using loop_round[OF i0 e0 up0, of u m "[]"] loop_upsert_fails[OF i1 e1 u1, of u m]
    by simp
  then have a: "addDocument u t m w =
      (Inl err, round_world u (?cs ! (0 + 1)) (round_record u m ?cs (0 + 1) (Array ys) ?w) ?w)"
    unfolding addDocument_def cs Let_def by simp
  show "fst (addDocument u t m w) = Inl err" by (simp add: a)
  show "fetches (snd (addDocument u t m w)) = fetches w + 2"
    by (simp add: a round_world_def)
  show "namespaces (snd (addDocument u t m w)) u ?id = Some ?r"
    by (simp add: a round_world_def)
qed

lemma two_documents_same_clock:
  assumes cA: "splitIntoChunks a CHUNK_SIZE = [ca]" and cB: "splitIntoChunks b CHUNK_SIZE = [cb]"
    and f0: "fetch_reply w (fetches w) = Response 200 (Inr (Object [(js ''embedding'', Array xs)]))"
    and f1: "fetch_reply w (fetches w + 1) = Response 200 (Inr (Object [(js ''embedding'', Array ys)]))"
    and p0: "pinecone_reply w (pinecone_calls w) = Succeeds d0"
    and p1: "pinecone_reply w (pinecone_calls w + 1) = Succeeds d1"
    and t0: "clock w (clock_reads w) = t" and t1: "clock w (clock_reads w + 2) = t"
  shows "fst (addDocuments u [a, b] m w) =
           Inr [\<lparr>success = True, message = js ''Added document with 1 chunks'',
                  chunks = [(chunk_id t 0, ca)]\<rparr>,
                \<lparr>success = True, message = js ''Added document with 1 chunks'',
                  chunks = [(chunk_id t 0, cb)]\<rparr>]"
    and "namespaces (snd (addDocuments u [a, b] m w)) u =
           (namespaces w u)(chunk_id t 0 \<mapsto>
              \<lparr>id' = chunk_id t 0, values' = Array ys,
               metadata = chunk_metadata u m cb 0 1 (toISOString w (clock w (clock_reads w + 3)))\<rparr>)"
proof -
  let ?ra = "round_record u m [ca] 0 (Array xs) w"
  define w1 where "w1 = (round_world u ca ?ra w)
        \<lparr>namespaces := (namespaces w)(u := (namespaces w u)(chunk_id t 0 \<mapsto> ?ra))\<rparr>"
  have e0: "fst (getEmbedding ca w) = Inr (Array xs)"
    by (rule getEmbedding_array) (rule f0)
  have A: "addDocument u a m w =
     (Inr \<lparr>success = True, message = js ''Added document with 1 chunks'',
            chunks = [(chunk_id t 0, ca)]\<rparr>, w1)"
    using one_chunk_document[OF cA e0 p0, of u m] by (simp add: t0 w1_def)
  have w1: "fetch_reply w1 = fetch_reply w" "fetches w1 = fetches w + 1"
    "pinecone_reply w1 = pinecone_reply w" "pinecone_calls w1 = pinecone_calls w + 1"
    "clock w1 = clock w" "clock_reads w1 = clock_reads w + 2" "toISOString w1 = toISOString w"
    "namespaces w1 u = (namespaces w u)(chunk_id t 0 \<mapsto> ?ra)"
    by (simp_all add: w1_def round_world_def)
  have e1: "fst (getEmbedding cb w1) = Inr (Array ys)"
    by (rule getEmbedding_array) (simp only: w1 f1)
  have p1': "pinecone_reply w1 (pinecone_calls w1) = Succeeds d1"
    by (simp only: w1 p1)
  have t1': "clock w1 (clock_reads w1) = t"
    by (simp only: w1 t1)
  let ?rb = "round_record u m [cb] 0 (Array ys) w1"
  have rb: "?rb = \<lparr>id' = chunk_id t 0, values' = Array ys,
               metadata = chunk_metadata u m cb 0 1 (toISOString w (clock w (clock_reads w + 3)))\<rparr>"
  proof -
    have r1: "clock_reads w1 + 1 = clock_reads w + 3" by (simp add: w1(6))
    have c1: "chunk_id (clock w1 (clock_reads w1)) 0 = chunk_id t 0" by (simp only: t1')
    have c2: "toISOString w1 (clock w1 (clock_reads w1 + 1))
              = toISOString w (clock w (clock_reads w + 3))"
      by (simp only: w1(5,7) r1)
    have l: "length [cb] = 1" and n: "[cb] ! 0 = cb" by simp_all
    show ?thesis
      unfolding round_record_def by (simp only: c1 c2 l n)
  qed
  define w2 where "w2 = snd (addDocument u b m w1)"
  have B: "addDocument u b m w1 =
     (Inr \<lparr>success = True, message = js ''Added document with 1 chunks'',
            chunks = [(chunk_id t 0, cb)]\<rparr>, w2)"
    using one_chunk_document[OF cB e1 p1', of u m] by (simp add: t1' w2_def)
  have nsB: "namespaces w2 u = (namespaces w1 u)(chunk_id t 0 \<mapsto> ?rb)"
    using one_chunk_document_namespace[OF cB e1 p1', of u m] by (simp only: t1' w2_def)
  have both: "addDocuments u [a, b] m w =
     (Inr [\<lparr>success = True, message = js ''Added document with 1 chunks'',
                  chunks = [(chunk_id t 0, ca)]\<rparr>,
                \<lparr>success = True, message = js ''Added document with 1 chunks'',
                  chunks = [(chunk_id t 0, cb)]\<rparr>], w2)"
    by (simp add: addDocuments_def A B)
  show "fst (addDocuments u [a, b] m w) =
           Inr [\<lparr>success = True, message = js ''Added document with 1 chunks'',
                  chunks = [(chunk_id t 0, ca)]\<rparr>,
                \<lparr>success = True, message = js ''Added document with 1 chunks'',
                  chunks = [(chunk_id t 0, cb)]\<rparr>]"
    by (simp only: both fst_conv)
  have "namespaces (snd (addDocuments u [a, b] m w)) u =
          ((namespaces w u)(chunk_id t 0 \<mapsto> ?ra))(chunk_id t 0 \<mapsto> ?rb)"
    by (simp only: both snd_conv nsB w1)
  then show "namespaces (snd (addDocuments u [a, b] m w)) u =
           (namespaces w u)(chunk_id t 0 \<mapsto>
              \<lparr>id' = chunk_id t 0, values' = Array ys,
               metadata = chunk_metadata u m cb 0 1 (toISOString w (clock w (clock_reads w + 3)))\<rparr>)"
    by (simp only: rb fun_upd_upd)
qed

lemma chunks_A: "splitIntoChunks (js ''A'') CHUNK_SIZE = [js ''A.'']" by code_simp
lemma chunks_B: "splitIntoChunks (js ''B'') CHUNK_SIZE = [js ''B.'']" by code_simp

lemma chunk_id_1000_0: "chunk_id 1000 0 = js ''doc_1000_chunk_0''"
proof -
  have "decimal 1000 = js ''1000''" "decimal 0 = js ''0''" by code_simp+
  then show ?thesis by (simp add: chunk_id_def) (simp add: js_def)
qed

lemma steady_reads:
  "clock steady_world k = 1000" "clock_reads steady_world = 0"
  "fetch_reply steady_world k = Response 200 (Inr (Object [(js ''embedding'', Array [Number 1])]))"
  "fetches steady_world = 0"
  "pinecone_reply steady_world k = Succeeds (Description (Some (IndexStatus True)))"
  "pinecone_calls steady_world = 0"
  "namespaces steady_world ns = Map.empty"
  "events steady_world = []"
  "toISOString steady_world = decimal"
  by (simp_all add: steady_world_def always_def)

lemma alice_metadata:
  "chunk_metadata (js ''alice'') [] c 0 1 (decimal 1000)
   = [(js ''text'', String c), (js ''chunkIndex'', Number 0),
      (js ''totalChunks'', Number 1), (js ''timestamp'', String (js ''1000'')),
      (js ''userId'', String (js ''alice''))]"
proof -
  have d: "decimal 1000 = js ''1000''" by code_simp
  have ne: "js ''chunkIndex'' \<noteq> js ''text''" "js ''totalChunks'' \<noteq> js ''text''"
    "js ''totalChunks'' \<noteq> js ''chunkIndex''" "js ''timestamp'' \<noteq> js ''text''"
    "js ''timestamp'' \<noteq> js ''chunkIndex''" "js ''timestamp'' \<noteq> js ''totalChunks''"
    "js ''userId'' \<noteq> js ''text''" "js ''userId'' \<noteq> js ''chunkIndex''"
    "js ''userId'' \<noteq> js ''totalChunks''" "js ''userId'' \<noteq> js ''timestamp''"
    by (simp_all add: js_def)
  show ?thesis
    by (simp add: chunk_metadata_def d ne)
qed

text \<open>
  C4. Two documents ingested into the same namespace while the clock reads the same
  millisecond (here 1000) get the same record id \<^verbatim>\<open>doc_1000_chunk_0\<close> for their first
  chunks. Both calls report success, and afterwards the namespace holds one record only,
  with the text of the second document: the record of the first has been overwritten.
\<close>

theorem record_ids_collide:
  "fst (addDocuments (js ''alice'') [js ''A'', js ''B''] [] steady_world) =
     Inr [\<lparr>success = True, message = js ''Added document with 1 chunks'',
            chunks = [(js ''doc_1000_chunk_0'', js ''A.'')]\<rparr>,
          \<lparr>success = True, message = js ''Added document with 1 chunks'',
            chunks = [(js ''doc_1000_chunk_0'', js ''B.'')]\<rparr>]
   \<and> namespaces (snd (addDocuments (js ''alice'') [js ''A'', js ''B''] [] steady_world)) (js ''alice'') =
     [js ''doc_1000_chunk_0'' \<mapsto>
        \<lparr>id' = js ''doc_1000_chunk_0'', values' = Array [Number 1],
         metadata = [(js ''text'', String (js ''B.'')), (js ''chunkIndex'', Number 0),
                     (js ''totalChunks'', Number 1), (js ''timestamp'', String (js ''1000'')),
                     (js ''userId'', String (js ''alice''))]\<rparr>]"
proof -
  note t = two_documents_same_clock[OF chunks_A chunks_B steady_reads(3) steady_reads(3)
      steady_reads(5) steady_reads(5) steady_reads(1) steady_reads(1), of "js ''alice''" "[]"]
  have ts: "toISOString steady_world (clock steady_world (clock_reads steady_world + 3))
            = decimal 1000"
    by (simp only: steady_reads(1,9))
  from t(1) have 1: "fst (addDocuments (js ''alice'') [js ''A'', js ''B''] [] steady_world) =
     Inr [\<lparr>success = True, message = js ''Added document with 1 chunks'',
            chunks = [(js ''doc_1000_chunk_0'', js ''A.'')]\<rparr>,
          \<lparr>success = True, message = js ''Added document with 1 chunks'',
            chunks = [(js ''doc_1000_chunk_0'', js ''B.'')]\<rparr>]"
    by (simp only: chunk_id_1000_0)
  from t(2) have 2: "namespaces (snd (addDocuments (js ''alice'') [js ''A'', js ''B''] [] steady_world)) (js ''alice'') =
     [js ''doc_1000_chunk_0'' \<mapsto>
        \<lparr>id' = js ''doc_1000_chunk_0'', values' = Array [Number 1],
         metadata = [(js ''text'', String (js ''B.'')), (js ''chunkIndex'', Number 0),
                     (js ''totalChunks'', Number 1), (js ''timestamp'', String (js ''1000'')),
                     (js ''userId'', String (js ''alice''))]\<rparr>]"
    by (simp only: chunk_id_1000_0 ts alice_metadata steady_reads(7))
  from 1 2 show ?thesis by (rule conjI)
qed

lemma quota_reads:
  "clock quota_world k = 1000" "clock_reads quota_world = 0"
  "fetch_reply quota_world k = Response 200 (Inr (Object [(js ''embedding'', Array [Number 1])]))"
  "fetches quota_world = 0"
  "pinecone_calls quota_world = 0"
  by (simp_all add: quota_world_def steady_world_def always_def)

lemma quota_replies:
  "pinecone_reply quota_world (pinecone_calls quota_world)
     = Succeeds (Description (Some (IndexStatus True)))"
  "pinecone_reply quota_world (pinecone_calls quota_world + 1) = Fails (Thrown (js ''quota''))"
  "pinecone_reply quota_world 1 = Fails (Thrown (js ''quota''))"
  by (simp_all add: quota_world_def steady_world_def always_def fails_at_def)

lemma quota_two_chunks:
  assumes two_chunks: "splitIntoChunks T CHUNK_SIZE = [c0, c1]"
  shows "fst (addDocument (js ''alice'') T [] quota_world) = Inl (Thrown (js ''quota''))"
    and "fetches (snd (addDocument (js ''alice'') T [] quota_world)) = 2"
  using two_chunk_document_second_upsert_fails[OF two_chunks quota_reads(3) quota_reads(3)
      quota_replies(1,2), of "js ''alice''" "[]"]
  by (simp_all add: quota_reads)

lemma quota_batch:
  "addDocuments (js ''alice'') [js ''A''] [] quota_world =
     (Inr [\<lparr>success = True, message = js ''Added document with 1 chunks'',
            chunks = [(js ''doc_1000_chunk_0'', js ''A.'')]\<rparr>],
      snd (addDocument (js ''alice'') (js ''A'') [] quota_world))"
  "fst (addDocument (js ''alice'') (js ''B'') []
         (snd (addDocument (js ''alice'') (js ''A'') [] quota_world))) = Inl (Thrown (js ''quota''))"
proof -
  let ?u = "js ''alice''"
  let ?e = "Thrown (js ''quota'')"
  have eA: "fst (getEmbedding (js ''A.'') quota_world) = Inr (Array [Number 1])"
    by (rule getEmbedding_array) (rule quota_reads(3))
  define w1 where "w1 = snd (addDocument ?u (js ''A'') [] quota_world)"
  note one = one_chunk_document[OF chunks_A eA quota_replies(1), of ?u "[]"]
  have A: "addDocument ?u (js ''A'') [] quota_world =
     (Inr \<lparr>success = True, message = js ''Added document with 1 chunks'',
            chunks = [(js ''doc_1000_chunk_0'', js ''A.'')]\<rparr>, w1)"
    using one by (simp add: w1_def quota_reads chunk_id_1000_0)
  have w1: "fetch_reply w1 = fetch_reply quota_world" "fetches w1 = 1"
    "pinecone_reply w1 = pinecone_reply quota_world" "pinecone_calls w1 = 1"
    using one by (simp_all add: w1_def round_world_def quota_reads)
  show "addDocuments ?u [js ''A''] [] quota_world =
     (Inr [\<lparr>success = True, message = js ''Added document with 1 chunks'',
            chunks = [(js ''doc_1000_chunk_0'', js ''A.'')]\<rparr>],
      snd (addDocument ?u (js ''A'') [] quota_world))"
    unfolding w1_def[symmetric] by (simp add: addDocuments_def A)
  have eB: "fst (getEmbedding (js ''B.'') w1) = Inr (Array [Number 1])"
    by (rule getEmbedding_array) (simp only: w1 quota_reads)
  have pB: "pinecone_reply w1 (pinecone_calls w1) = Fails ?e"
    by (simp only: w1 quota_replies)
  show "fst (addDocument ?u (js ''B'') [] (snd (addDocument ?u (js ''A'') [] quota_world))) = Inl ?e"
    unfolding w1_def[symmetric]
    using one_chunk_document_upsert_fails[OF chunks_B eB pB, of ?u "[]"] by simp
qed

lemma getEmbedding_rejected:
  "fetch_reply w (fetches w) = Rejected e \<Longrightarrow> fst (getEmbedding c w) = Inl e"
  by (simp add: getEmbedding_def fetch_def)

lemma getEmbedding_503:
  "fetch_reply w (fetches w) = Response 503 body \<Longrightarrow>
   fst (getEmbedding c w) = Inl (Error (js ''HTTP error! status: 503''))"
proof -
  have "decimal 503 = js ''503''" by code_simp
  then have d: "js ''HTTP error! status: '' @ decimal 503 = js ''HTTP error! status: 503''"
    by (simp add: js_def)
  assume "fetch_reply w (fetches w) = Response 503 body"
  then have "fst (getEmbedding c w) = Inl (Error (js ''HTTP error! status: '' @ decimal 503))"
    by (simp add: getEmbedding_def fetch_def ok_def)
  then show ?thesis by (simp only: d)
qed

lemma quota_embeds:
  "fst (getEmbedding c (quota_world\<lparr>fetches := n\<rparr>)) = Inr (Array [Number 1])"
  by (rule getEmbedding_array) (simp add: quota_reads)

lemma quota_reply_at:
  "pinecone_reply quota_world k =
     (if k = 1 then Fails (Thrown (js ''quota''))
      else Succeeds (Description (Some (IndexStatus True))))"
  by (simp add: quota_world_def steady_world_def always_def fails_at_def)

lemma ingestion_failure_instance:
  assumes two_chunks: "splitIntoChunks T CHUNK_SIZE = [c0, c1]"
    and main: "\<And>userId doc meta w.
      (\<forall>k e. k < length (splitIntoChunks doc CHUNK_SIZE)
           \<and> (\<forall>j<k. (\<exists>v. fst (getEmbedding (splitIntoChunks doc CHUNK_SIZE ! j)
                                  (w\<lparr>fetches := fetches w + j\<rparr>)) = Inr v)
                      \<and> (\<exists>d. pinecone_reply w (pinecone_calls w + j) = Succeeds d))
           \<and> (fst (getEmbedding (splitIntoChunks doc CHUNK_SIZE ! k) (w\<lparr>fetches := fetches w + k\<rparr>))
                 = Inl e
              \<or> (\<exists>v. fst (getEmbedding (splitIntoChunks doc CHUNK_SIZE ! k)
                            (w\<lparr>fetches := fetches w + k\<rparr>)) = Inr v)
                \<and> pinecone_reply w (pinecone_calls w + k) = Fails e)
           \<longrightarrow> fst (addDocument userId doc meta w) = Inl e
             \<and> (\<forall>j<k. \<exists>now r.
                   namespaces (snd (addDocument userId doc meta w)) userId (chunk_id now j) = Some r
                 \<and> id' r = chunk_id now j
                 \<and> map_of (metadata r) (js ''text'')
                     = Some (String (splitIntoChunks doc CHUNK_SIZE ! j))))
      \<and> (\<forall>e w'. addDocument userId doc meta w = (Inl e, w') \<longrightarrow>
         (\<exists>k < length (splitIntoChunks doc CHUNK_SIZE).
             fetches w' = fetches w + k + 1
           \<and> (\<forall>j<k. \<exists>now r. namespaces w' userId (chunk_id now j) = Some r \<and> id' r = chunk_id now j
                 \<and> map_of (metadata r) (js ''text'')
                     = Some (String (splitIntoChunks doc CHUNK_SIZE ! j)))
           \<and> (fst (getEmbedding (splitIntoChunks doc CHUNK_SIZE ! k) (w\<lparr>fetches := fetches w + k\<rparr>))
                 = Inl e
              \<or> pinecone_reply w (pinecone_calls w + k) = Fails e)))
      \<and> (\<forall>ds1 d ds2 rs w1 e w2.
           addDocuments userId ds1 meta w = (Inr rs, w1) \<and> addDocument userId d meta w1 = (Inl e, w2)
           \<longrightarrow> addDocuments userId (ds1 @ d # ds2) meta w = (Inl e, w2))"
  shows "fst (addDocument (js ''alice'') T [] quota_world)
     = Inl (Thrown (js ''quota''))
   \<and> fetches (snd (addDocument (js ''alice'') T [] quota_world)) = 2
   \<and> (\<exists>now r.
        namespaces (snd (addDocument (js ''alice'') T [] quota_world))
          (js ''alice'') (chunk_id now 0) = Some r
        \<and> id' r = chunk_id now 0
        \<and> map_of (metadata r) (js ''text'') = Some (String c0))
   \<and> fst (addDocuments (js ''alice'') [js ''A''] [] quota_world) =
        Inr [\<lparr>success = True, message = js ''Added document with 1 chunks'',
               chunks = [(js ''doc_1000_chunk_0'', js ''A.'')]\<rparr>]
   \<and> fst (addDocument (js ''alice'') (js ''B'') []
             (snd (addDocuments (js ''alice'') [js ''A''] [] quota_world)))
        = Inl (Thrown (js ''quota''))
   \<and> addDocuments (js ''alice'') [js ''A'', js ''B'', js ''C''] [] quota_world =
        (Inl (Thrown (js ''quota'')),
         snd (addDocument (js ''alice'') (js ''B'') []
                (snd (addDocuments (js ''alice'') [js ''A''] [] quota_world))))
   \<and> fst (addDocument (js ''alice'') (js ''A'') []
             (steady_world\<lparr>fetch_reply := always (Rejected (Thrown (js ''ECONNREFUSED'')))\<rparr>))
        = Inl (Thrown (js ''ECONNREFUSED''))
   \<and> fst (addDocument (js ''alice'') (js ''A'') []
             (steady_world\<lparr>fetch_reply := always (Response 503 (Inr Null))\<rparr>))
        = Inl (Error (js ''HTTP error! status: 503''))"
proof -
  let ?u = "js ''alice''"
  let ?e = "Thrown (js ''quota'')"
  let ?r = "Thrown (js ''ECONNREFUSED'')"
  let ?h = "Error (js ''HTTP error! status: 503'')"
  let ?off = "steady_world\<lparr>fetch_reply := always (Rejected ?r)\<rparr>"
  let ?down = "steady_world\<lparr>fetch_reply := always (Response 503 (Inr Null))\<rparr>"
  define w' where "w' = snd (addDocument ?u T [] quota_world)"
  have "fst (addDocument ?u T [] quota_world) = Inl ?e
      \<and> (\<forall>j<1. \<exists>now r.
            namespaces (snd (addDocument ?u T [] quota_world)) ?u (chunk_id now j) = Some r
          \<and> id' r = chunk_id now j
          \<and> map_of (metadata r) (js ''text'') = Some (String (splitIntoChunks T CHUNK_SIZE ! j)))"
    by (rule main[where userId = "?u" and doc = "T" and meta = "[]" and w = "quota_world", THEN conjunct1, rule_format, where k = 1 and e = "?e"])
      (simp add: two_chunks quota_embeds quota_reads quota_reply_at)
  then have 1: "fst (addDocument ?u T [] quota_world) = Inl ?e" by (rule conjunct1)
  then have failed: "addDocument ?u T [] quota_world = (Inl ?e, w')"
    by (simp add: w'_def prod_eq_iff)
  have f2: "fetches w' = 2"
    using quota_two_chunks(2)[OF two_chunks] by (simp add: w'_def)
  from main[where userId = "?u" and doc = "T" and meta = "[]" and w = "quota_world", THEN conjunct2, THEN conjunct1, rule_format, OF failed]
  obtain k where k: "k < length (splitIntoChunks T CHUNK_SIZE)"
    and fk: "fetches w' = fetches quota_world + k + 1"
    and st: "\<forall>j<k. \<exists>now r. namespaces w' ?u (chunk_id now j) = Some r \<and> id' r = chunk_id now j
              \<and> map_of (metadata r) (js ''text'') = Some (String (splitIntoChunks T CHUNK_SIZE ! j))"
    by blast
  from fk f2 have "k = 1" by (simp add: quota_reads)
  with st have "\<exists>now r. namespaces w' ?u (chunk_id now 0) = Some r \<and> id' r = chunk_id now 0
              \<and> map_of (metadata r) (js ''text'') = Some (String (splitIntoChunks T CHUNK_SIZE ! 0))"
    by simp
  then have kept: "\<exists>now r. namespaces w' ?u (chunk_id now 0) = Some r \<and> id' r = chunk_id now 0
              \<and> map_of (metadata r) (js ''text'') = Some (String c0)"
    by (simp add: two_chunks)
  define w1 where "w1 = snd (addDocument ?u (js ''A'') [] quota_world)"
  define w2 where "w2 = snd (addDocument ?u (js ''B'') [] w1)"
  have As: "addDocuments ?u [js ''A''] [] quota_world =
     (Inr [\<lparr>success = True, message = js ''Added document with 1 chunks'',
            chunks = [(js ''doc_1000_chunk_0'', js ''A.'')]\<rparr>], w1)"
    using quota_batch(1) by (simp add: w1_def)
  have B: "addDocument ?u (js ''B'') [] w1 = (Inl ?e, w2)"
    using quota_batch(2) by (simp add: w1_def w2_def prod_eq_iff)
  from main[where userId = "?u" and doc = "T" and meta = "[]" and w = "quota_world", THEN conjunct2, THEN conjunct2, rule_format,
      of "[js ''A'']" _ w1 "js ''B''" ?e w2 "[js ''C'']"] As B
  have abort: "addDocuments ?u [js ''A'', js ''B'', js ''C''] [] quota_world = (Inl ?e, w2)"
    by simp
  have off: "\<And>c. fst (getEmbedding c ?off) = Inl ?r"
    by (rule getEmbedding_rejected) (simp add: always_def)
  have "fst (addDocument ?u (js ''A'') [] ?off) = Inl ?r
      \<and> (\<forall>j<0. \<exists>now r.
            namespaces (snd (addDocument ?u (js ''A'') [] ?off)) ?u (chunk_id now j) = Some r
          \<and> id' r = chunk_id now j
          \<and> map_of (metadata r) (js ''text'')
              = Some (String (splitIntoChunks (js ''A'') CHUNK_SIZE ! j)))"
    by (rule main[where userId = "?u" and doc = "js ''A''" and meta = "[]" and w = "?off", THEN conjunct1, rule_format,
          where k = 0 and e = "?r"])
      (simp add: chunks_A off)
  then have 7: "fst (addDocument ?u (js ''A'') [] ?off) = Inl ?r" by (rule conjunct1)
  have down: "\<And>c. fst (getEmbedding c ?down) = Inl ?h"
    by (rule getEmbedding_503[where body = "Inr Null"]) (simp add: always_def)
  have "fst (addDocument ?u (js ''A'') [] ?down) = Inl ?h
      \<and> (\<forall>j<0. \<exists>now r.
            namespaces (snd (addDocument ?u (js ''A'') [] ?down)) ?u (chunk_id now j) = Some r
          \<and> id' r = chunk_id now j
          \<and> map_of (metadata r) (js ''text'')
              = Some (String (splitIntoChunks (js ''A'') CHUNK_SIZE ! j)))"
    by (rule main[where userId = "?u" and doc = "js ''A''" and meta = "[]" and w = "?down", THEN conjunct1, rule_format,
          where k = 0 and e = "?h"])
      (simp add: chunks_A down)
  then have 8: "fst (addDocument ?u (js ''A'') [] ?down) = Inl ?h" by (rule conjunct1)
  have s1: "snd (addDocuments ?u [js ''A''] [] quota_world) = w1" by (simp add: As)
  have 4: "fst (addDocuments ?u [js ''A''] [] quota_world) =
        Inr [\<lparr>success = True, message = js ''Added document with 1 chunks'',
               chunks = [(js ''doc_1000_chunk_0'', js ''A.'')]\<rparr>]" by (simp add: As)
  have 5: "fst (addDocument ?u (js ''B'') [] w1) = Inl ?e" by (simp add: B)
  show ?thesis
    unfolding s1 w2_def[symmetric] w'_def[symmetric]
    using 1 f2 kept 4 5 abort 7 8
    unfolding w'_def[symmetric] by blast
qed

theorem ingestion_failure_keeps_progress_witness:
  "fst (addDocument (js ''alice'') (replicate 500 0x61 @ js ''. '' @ replicate 499 0x62 @ js ''. c'') [] quota_world)
     = Inl (Thrown (js ''quota''))
   \<and> fetches (snd (addDocument (js ''alice'') (replicate 500 0x61 @ js ''. '' @ replicate 499 0x62 @ js ''. c'') [] quota_world)) = 2
   \<and> (\<exists>now r.
        namespaces (snd (addDocument (js ''alice'') (replicate 500 0x61 @ js ''. '' @ replicate 499 0x62 @ js ''. c'') [] quota_world))
          (js ''alice'') (chunk_id now 0) = Some r
        \<and> id' r = chunk_id now 0
        \<and> map_of (metadata r) (js ''text'') = Some (String (replicate 500 0x61 @ js ''. '' @ replicate 499 0x62 @ js ''.'')))
   \<and> fst (addDocuments (js ''alice'') [js ''A''] [] quota_world) =
        Inr [\<lparr>success = True, message = js ''Added document with 1 chunks'',
               chunks = [(js ''doc_1000_chunk_0'', js ''A.'')]\<rparr>]
   \<and> fst (addDocument (js ''alice'') (js ''B'') []
             (snd (addDocuments (js ''alice'') [js ''A''] [] quota_world)))
        = Inl (Thrown (js ''quota''))
   \<and> addDocuments (js ''alice'') [js ''A'', js ''B'', js ''C''] [] quota_world =
        (Inl (Thrown (js ''quota'')),
         snd (addDocument (js ''alice'') (js ''B'') []
                (snd (addDocuments (js ''alice'') [js ''A''] [] quota_world))))
   \<and> fst (addDocument (js ''alice'') (js ''A'') []
             (steady_world\<lparr>fetch_reply := always (Rejected (Thrown (js ''ECONNREFUSED'')))\<rparr>))
        = Inl (Thrown (js ''ECONNREFUSED''))
   \<and> fst (addDocument (js ''alice'') (js ''A'') []
             (steady_world\<lparr>fetch_reply := always (Response 503 (Inr Null))\<rparr>))
        = Inl (Error (js ''HTTP error! status: 503''))"
  by (rule ingestion_failure_instance[OF long_document_chunks ingestion_failure_keeps_progress])

end
